theory Spec2Isabelle
  imports Complex_Main "HOL-Library.Sublist"
begin

section \<open>Strings\<close>

text \<open>
  A text is a \<open>string\<close>: a list of 8-bit characters, read as the code units
  U+0000 .. U+00FF of a JavaScript string, so \<open>length\<close> is the \<open>.length\<close> of the
  source. The string methods of the standard library that the pipeline calls are
  written out below on this range.
\<close>

definition nl :: char where
  "nl = CHR 0x0A"

text \<open>
  \<open>String.prototype.trim\<close> strips white space and line terminators from both ends.
  Within U+0000 .. U+00FF these are TAB (9), LF (10), VT (11), FF (12), CR (13),
  SPACE (32) and NBSP (160).
\<close>

definition is_ws :: "char \<Rightarrow> bool" where
  "is_ws c \<longleftrightarrow> (of_char c :: nat) \<in> set [9, 10, 11, 12, 13, 32, 160]"

definition trim :: "string \<Rightarrow> string" where
  "trim s = rev (dropWhile is_ws (rev (dropWhile is_ws s)))"

text \<open>
  \<open>s.split("\n")\<close>: the pieces between the newlines, always at least one piece
  (\<open>"".split("\n")\<close> is \<open>[""]\<close>).
\<close>

fun split_nl :: "string \<Rightarrow> string list" where
  "split_nl [] = [[]]"
| "split_nl (c # cs) =
     (if c = nl then [] # split_nl cs
      else (case split_nl cs of [] \<Rightarrow> [[c]] | l # ls \<Rightarrow> (c # l) # ls))"

text \<open>
  \<open>s.includes(sub)\<close>: \<open>sub\<close> occurs in \<open>s\<close> as a contiguous piece.
\<close>

fun str_includes :: "string \<Rightarrow> string \<Rightarrow> bool" where
  "str_includes [] sub = (sub = [])"
| "str_includes (c # cs) sub = (prefix sub (c # cs) \<or> str_includes cs sub)"

text \<open>
  \<open>s.toLowerCase()\<close>. On U+0000 .. U+00FF the mapping is per character: \<open>A\<close> to
  \<open>Z\<close> and U+00C0 to U+00DE (the multiplication sign U+00D7 apart) move up by 32.
\<close>

definition lower_char :: "char \<Rightarrow> char" where
  "lower_char c =
     (let n = (of_char c :: nat) in
      if (65 \<le> n \<and> n \<le> 90) \<or> (192 \<le> n \<and> n \<le> 222 \<and> n \<noteq> 215)
      then char_of (n + 32) else c)"

definition toLowerCase :: "string \<Rightarrow> string" where
  "toLowerCase s = map lower_char s"

text \<open>
  \<open>s.replace("s", "")\<close> with a string pattern deletes the first \<open>s\<close> only.
\<close>

fun replace_s :: "string \<Rightarrow> string" where
  "replace_s [] = []"
| "replace_s (c # cs) = (if c = CHR ''s'' then cs else c # replace_s cs)"

text \<open>
  The numbers that \<open>parseInt\<close> can return: \<open>NaN\<close>, an integer that is a double,
  and the two infinities. \<open>to_number\<close> is the Number value of an exact integer:
  below \<open>2^53 = 9007199254740992\<close> in size the integer itself, above it the
  nearest double (53 significant bits, a tie going to the even one), and an infinity
  when that is \<open>2^1024\<close> or more. \<open>round_to_double\<close> does it for an integer
  that is not negative, \<open>None\<close> being the infinity.
\<close>

datatype number = NaN | Num int | PosInfinity | NegInfinity

function bit_length :: "int \<Rightarrow> nat" where
  "bit_length n = (if n \<le> 0 then 0 else Suc (bit_length (n div 2)))"
  by pat_completeness auto
termination
  by (relation "measure nat") auto

declare bit_length.simps [simp del]

definition round_to_double :: "int \<Rightarrow> int option" where
  "round_to_double n =
     (if n < 9007199254740992 then Some n
      else (let e = bit_length n - 53;
                q = n div 2 ^ e;
                r = n mod 2 ^ e;
                half = 2 ^ (e - 1);
                q' = (if half < r \<or> (r = half \<and> odd q) then q + 1 else q)
            in if 2 ^ 1024 \<le> q' * 2 ^ e then None else Some (q' * 2 ^ e)))"

definition to_number :: "int \<Rightarrow> number" where
  "to_number z =
     (if z < 0
      then (case round_to_double (- z) of None \<Rightarrow> NegInfinity | Some m \<Rightarrow> Num (- m))
      else (case round_to_double z of None \<Rightarrow> PosInfinity | Some m \<Rightarrow> Num m))"

text \<open>
  \<open>parseInt(s)\<close> without a radix: leading white space is skipped, a sign is read,
  a prefix \<open>0x\<close> or \<open>0X\<close> selects base 16, and the longest run of digits of the
  base is read as an integer, of which the result is the Number value. With no digit
  the result is \<open>NaN\<close>.
\<close>

definition is_digit :: "char \<Rightarrow> bool" where
  "is_digit c \<longleftrightarrow> c \<in> set ''0123456789''"

definition is_hex_digit :: "char \<Rightarrow> bool" where
  "is_hex_digit c \<longleftrightarrow> c \<in> set ''0123456789abcdefABCDEF''"

definition digit_value :: "char \<Rightarrow> nat" where
  "digit_value c =
     (let n = (of_char c :: nat) in
      if 97 \<le> n then n - 87 else if 65 \<le> n then n - 55 else n - 48)"

definition digits_value :: "int \<Rightarrow> string \<Rightarrow> int" where
  "digits_value radix ds = foldl (\<lambda>n c. radix * n + int (digit_value c)) 0 ds"

definition parse_digits :: "string \<Rightarrow> int option" where
  "parse_digits s =
     (if prefix ''0x'' s \<or> prefix ''0X'' s
      then (let ds = takeWhile is_hex_digit (drop 2 s)
            in if ds = [] then None else Some (digits_value 16 ds))
      else (let ds = takeWhile is_digit s
            in if ds = [] then None else Some (digits_value 10 ds)))"

definition parseInt :: "string \<Rightarrow> number" where
  "parseInt s =
     (let t = dropWhile is_ws s in
      case t of
        [] \<Rightarrow> NaN
      | c # cs \<Rightarrow>
          if c = CHR ''-''
          then (case parse_digits cs of None \<Rightarrow> NaN | Some n \<Rightarrow> to_number (- n))
          else if c = CHR ''+''
          then (case parse_digits cs of None \<Rightarrow> NaN | Some n \<Rightarrow> to_number n)
          else (case parse_digits t of None \<Rightarrow> NaN | Some n \<Rightarrow> to_number n))"

text \<open>
  \<open>Math.round(x)\<close> on an exact quotient: the nearest integer, a tie going up.
\<close>

definition Math_round :: "rat \<Rightarrow> int" where
  "Math_round x = \<lfloor>x + 1 / 2\<rfloor>"

text \<open>The decimal numeral that a template literal prints for a natural number.\<close>

function decimal :: "nat \<Rightarrow> string" where
  "decimal n =
     (if n < 10 then [char_of (48 + n)]
      else decimal (n div 10) @ [char_of (48 + n mod 10)])"
  by pat_completeness auto
termination
  by (relation "measure id") auto

declare decimal.simps [simp del]

text \<open>
  The text that a template literal prints for a number: the decimal numeral of an
  integer (the source prints the digits in full below \<open>10^21\<close>), and the names of
  the other values.
\<close>

definition number_text :: "number \<Rightarrow> string" where
  "number_text x =
     (case x of
        NaN \<Rightarrow> ''NaN''
      | Num z \<Rightarrow> (if z < 0 then ''-'' @ decimal (nat (- z)) else decimal (nat z))
      | PosInfinity \<Rightarrow> ''Infinity''
      | NegInfinity \<Rightarrow> ''-Infinity'')"
section \<open>Chunking engine\<close>

text \<open>
  \<open>chunkTextForProcessing\<close>. The \<open>for\<close> loop over the lines carries the chunks
  pushed so far and the buffer \<open>currentChunk\<close>. The budget is a JavaScript number,
  here an integer (the default of 14000 is an explicit argument).
\<close>

fun chunk_loop :: "int \<Rightarrow> string list \<Rightarrow> string list \<Rightarrow> string \<Rightarrow> string list \<times> string" where
  "chunk_loop maxChars [] chunks currentChunk = (chunks, currentChunk)"
| "chunk_loop maxChars (line # lines) chunks currentChunk =
     (if int (length (currentChunk @ line)) > maxChars \<and> length currentChunk > 0
      then chunk_loop maxChars lines (chunks @ [trim currentChunk]) (line @ [nl])
      else chunk_loop maxChars lines chunks (currentChunk @ line @ [nl]))"

definition chunkTextForProcessing :: "string \<Rightarrow> int \<Rightarrow> string list" where
  "chunkTextForProcessing text maxTokens =
     (let maxChars = maxTokens in
      if int (length text) \<le> maxChars then [text]
      else (case chunk_loop maxChars (split_nl text) [] [] of
              (chunks, currentChunk) \<Rightarrow>
                if trim currentChunk \<noteq> [] then chunks @ [trim currentChunk] else chunks))"

section \<open>Section content extractor\<close>

text \<open>
  A \<open>Section\<close> of the outline, as the interface declares it. The page numbers are
  JavaScript numbers read from JSON, here integers.
\<close>

record Section =
  title :: string
  start_page :: int
  end_page :: int
  start_text :: "string option"
  end_text :: "string option"

text \<open>
  \<open>line.match(/=== PAGE (\d+) ===/)\<close>: the pattern may match anywhere in the line;
  the result is the digits of the leftmost match. At one position the match is fixed:
  the literal, the whole run of digits, the literal.
\<close>

definition marker_at :: "string \<Rightarrow> string option" where
  "marker_at s =
     (if prefix ''=== PAGE '' s
      then (let r = drop 9 s; ds = takeWhile is_digit r; rest = dropWhile is_digit r
            in if ds \<noteq> [] \<and> prefix '' ==='' rest then Some ds else None)
      else None)"

fun page_match :: "string \<Rightarrow> string option" where
  "page_match [] = None"
| "page_match (c # cs) =
     (case marker_at (c # cs) of Some ds \<Rightarrow> Some ds | None \<Rightarrow> page_match cs)"

text \<open>
  The anchor test of a line against a section: the lower-cased line includes the
  lower-cased title, or the section has a non-empty \<open>start_text\<close> that it includes.
\<close>

definition anchor_match :: "Section \<Rightarrow> string \<Rightarrow> bool" where
  "anchor_match s line \<longleftrightarrow>
     str_includes (toLowerCase line) (toLowerCase (title s))
     \<or> (case start_text s of
           None \<Rightarrow> False
         | Some st \<Rightarrow> st \<noteq> [] \<and> str_includes (toLowerCase line) (toLowerCase st))"

text \<open>
  A comparison of \<open>currentPage\<close> with a page number; \<open>currentPage\<close> is the result
  of \<open>parseInt\<close>, and a comparison with \<open>NaN\<close> is false.
\<close>

definition page_ge :: "number \<Rightarrow> int \<Rightarrow> bool" where
  "page_ge p n =
     (case p of NaN \<Rightarrow> False | Num k \<Rightarrow> k \<ge> n | PosInfinity \<Rightarrow> True
      | NegInfinity \<Rightarrow> False)"

definition page_gt :: "number \<Rightarrow> int \<Rightarrow> bool" where
  "page_gt p n =
     (case p of NaN \<Rightarrow> False | Num k \<Rightarrow> k > n | PosInfinity \<Rightarrow> True
      | NegInfinity \<Rightarrow> False)"

text \<open>
  The first loop of \<open>extractSectionContent\<close>, over the lines still to read, with the
  loop variables \<open>capturing\<close>, \<open>currentPage\<close> and \<open>sectionContent\<close>. A
  \<open>break\<close> returns the content collected so far.
\<close>

fun anchor_pass ::
  "Section \<Rightarrow> Section option \<Rightarrow> string list \<Rightarrow> bool \<Rightarrow> number \<Rightarrow> string \<Rightarrow> string" where
  "anchor_pass sec nextSection [] capturing currentPage sectionContent = sectionContent"
| "anchor_pass sec nextSection (line # lines) capturing currentPage sectionContent =
     (case page_match line of
        Some ds \<Rightarrow> anchor_pass sec nextSection lines capturing (parseInt ds) sectionContent
      | None \<Rightarrow>
          (let capturing' =
                 (if page_ge currentPage (start_page sec) \<and> \<not> capturing
                  then (if anchor_match sec line then True else capturing)
                  else capturing)
           in if capturing'
              then (if page_gt currentPage (end_page sec) then sectionContent
                    else if (case nextSection of None \<Rightarrow> False
                             | Some ns \<Rightarrow> anchor_match ns line)
                    then sectionContent
                    else anchor_pass sec nextSection lines capturing' currentPage
                           (sectionContent @ line @ [nl]))
              else anchor_pass sec nextSection lines capturing' currentPage sectionContent))"

text \<open>The second loop, the fallback by page numbers alone.\<close>

fun page_pass :: "Section \<Rightarrow> string list \<Rightarrow> bool \<Rightarrow> number \<Rightarrow> string \<Rightarrow> string" where
  "page_pass sec [] capturing currentPage sectionContent = sectionContent"
| "page_pass sec (line # lines) capturing currentPage sectionContent =
     (case page_match line of
        Some ds \<Rightarrow> page_pass sec lines capturing (parseInt ds) sectionContent
      | None \<Rightarrow>
          (let capturing' =
                 (if page_ge currentPage (start_page sec) \<and> \<not> capturing then True
                  else capturing)
           in if capturing'
              then (if page_gt currentPage (end_page sec) then sectionContent
                    else page_pass sec lines capturing' currentPage
                           (sectionContent @ line @ [nl]))
              else page_pass sec lines capturing' currentPage sectionContent))"

definition extractSectionContent :: "string \<Rightarrow> Section \<Rightarrow> Section option \<Rightarrow> string" where
  "extractSectionContent documentText sec nextSection =
     (let lines = split_nl documentText;
          sectionContent = anchor_pass sec nextSection lines False (Num 1) []
      in if trim sectionContent = []
         then trim (page_pass sec lines False (Num 1) [])
         else trim sectionContent)"

text \<open>
  The vocabulary of the claims about extraction. \<open>unlines\<close> is what the
  loops build, every line followed by a newline; \<open>join_nl\<close> is
  \<open>lines.join("\n")\<close>, the text whose lines are given. \<open>marker_numbers\<close> lists
  the page numbers written on the marker lines, in order, as the numerals they are.
  \<open>pages_between a b p lines\<close> follows the specification's words "the full text of
  pages \<open>a\<close> through \<open>b\<close> inclusive": the lines other than markers whose page,
  counted from \<open>p\<close> by the numerals of the markers, lies in the range.
  \<open>stop_at nextSection ls\<close> is the part of \<open>ls\<close> before the first line that
  passes the anchor test of the next section, all of \<open>ls\<close> when there is no next
  section. \<open>max_safe\<close> is \<open>Number.MAX_SAFE_INTEGER\<close>, up to which every integer
  is a double.
\<close>

definition unlines :: "string list \<Rightarrow> string" where
  "unlines ls = concat (map (\<lambda>l. l @ [nl]) ls)"

fun join_nl :: "string list \<Rightarrow> string" where
  "join_nl [] = []"
| "join_nl [l] = l"
| "join_nl (l # ls) = l @ nl # join_nl ls"

fun marker_numbers :: "string list \<Rightarrow> int list" where
  "marker_numbers [] = []"
| "marker_numbers (line # lines) =
     (case page_match line of
        Some ds \<Rightarrow> digits_value 10 ds # marker_numbers lines
      | None \<Rightarrow> marker_numbers lines)"

fun pages_between :: "int \<Rightarrow> int \<Rightarrow> int \<Rightarrow> string list \<Rightarrow> string list" where
  "pages_between a b p [] = []"
| "pages_between a b p (line # lines) =
     (case page_match line of
        Some ds \<Rightarrow> pages_between a b (digits_value 10 ds) lines
      | None \<Rightarrow>
          (if a \<le> p \<and> p \<le> b then line # pages_between a b p lines
           else pages_between a b p lines))"

definition stop_at :: "Section option \<Rightarrow> string list \<Rightarrow> string list" where
  "stop_at nextSection ls =
     (case nextSection of
        None \<Rightarrow> ls
      | Some ns \<Rightarrow> takeWhile (\<lambda>l. \<not> anchor_match ns l) ls)"

definition max_safe :: int where
  "max_safe = 9007199254740991"
section \<open>Durable record store\<close>

text \<open>
  The two tables of the schema. A document row has the columns that the pipeline
  writes; the outline column \<open>tableOfContents\<close> holds the sections themselves rather
  than their JSON text, and a timestamp is the reading of the clock. A section row
  has every column but the generated key (the column \<open>title\<close> is \<open>row_title\<close>
  here, \<open>documentId\<close> is \<open>row_documentId\<close>).
\<close>

datatype doc_status =
  processing | completed | failed | awaiting_outline_approval | awaiting_summary_approval

record document =
  status :: doc_status
  currentStep :: "string option"
  progress :: int
  statusMessage :: "string option"
  tableOfContents :: "Section list option"
  outlineApprovedAt :: "nat option"
  completedAt :: "nat option"
  errorMessage :: "string option"

record section_row =
  row_documentId :: nat
  row_title :: string
  summary :: string
  startPage :: int
  endPage :: int
  sectionNumber :: nat
  pdfPath :: "string option"

text \<open>
  What an external call can come back with. A thrown value is \<open>null\<close> or
  \<open>undefined\<close> (\<open>Nullish\<close>), or a value with the properties that the pipeline
  reads: whether it is an \<open>Error\<close>, its \<open>message\<close>, and the \<open>errorText\<close> and
  \<open>responseText\<close> it may carry (empty when absent).
\<close>

datatype thrown =
  Nullish
| Exn (instanceofError: bool) (message: string) (errorText: string) (responseText: string)

text \<open>
  The reply of the language-model service to one \<open>fetch\<close>: the call itself is
  rejected; or the response is not \<open>ok\<close>, with its \<open>statusText\<close> and body text; or
  it is \<open>ok\<close> and \<open>candidates?.[0]?.content?.parts?.[0]?.text\<close> is the given text
  (\<open>None\<close> when undefined).
\<close>

datatype fetch_outcome =
  Rejected thrown
| NotOk string string
| OkBody "string option"

text \<open>
  The world in which the pipeline runs: the two tables; the history of the values
  written to the \<open>progress\<close> column, with the document written to; the history of
  the calls of \<open>updateDocumentStatus\<close>, each with the document, the step name and
  the message it was given; the time slept, in milliseconds; and the service, as its
  reply to each request in turn, with the number of requests sent so far.
\<close>

record world =
  documents :: "nat \<rightharpoonup> document"
  sections :: "section_row list"
  progressLog :: "(nat \<times> int) list"
  statusLog :: "(nat \<times> string \<times> string) list"
  clock :: nat
  gemini :: "nat \<Rightarrow> fetch_outcome"
  requests :: nat

text \<open>
  \<open>db.update(schema.documents).set(...).where(eq(id, documentId))\<close>: the row with the
  key, if there is one, gets the new columns; \<open>written\<close> is the value for the
  \<open>progress\<close> column when the statement sets it.
\<close>

definition db_update :: "nat \<Rightarrow> (document \<Rightarrow> document) \<Rightarrow> int option \<Rightarrow> world \<Rightarrow> world" where
  "db_update documentId set_columns written w =
     (case documents w documentId of
        None \<Rightarrow> w
      | Some d \<Rightarrow>
          (case written of
             None \<Rightarrow> w\<lparr>documents := (documents w)(documentId \<mapsto> set_columns d)\<rparr>
           | Some p \<Rightarrow>
               w\<lparr>documents := (documents w)(documentId \<mapsto> (set_columns d)\<lparr>progress := p\<rparr>),
                 progressLog := progressLog w @ [(documentId, p)]\<rparr>))"

definition updateDocumentStatus :: "nat \<Rightarrow> string \<Rightarrow> string \<Rightarrow> int option \<Rightarrow> world \<Rightarrow> world" where
  "updateDocumentStatus documentId stepName msg progress_opt w =
     db_update documentId
       (\<lambda>d. d\<lparr>currentStep := Some stepName, statusMessage := Some msg\<rparr>) progress_opt
       (w\<lparr>statusLog := statusLog w @ [(documentId, stepName, msg)]\<rparr>)"

text \<open>
  \<open>delay(ms)\<close> sleeps for the milliseconds asked. \<open>asked_ms\<close> reads them from a
  number; the sleep asked with a number that is not a positive integer is not counted.
\<close>

definition delay :: "nat \<Rightarrow> world \<Rightarrow> world" where
  "delay ms w = w\<lparr>clock := clock w + ms\<rparr>"

definition asked_ms :: "number \<Rightarrow> nat" where
  "asked_ms x = (case x of Num z \<Rightarrow> nat z | _ \<Rightarrow> 0)"

section \<open>Retry and backoff controller\<close>

text \<open>
  The value of \<open>JSON.parse\<close>. The parser itself is a parameter \<open>JSON_parse\<close> of the
  controller (\<open>None\<close> when it throws); an object lists its properties, and a number is an
  integer here.
\<close>

datatype json =
  JNull | JBool bool | JNumber int | JString string | JArray "json list"
| JObject "(string \<times> json) list"

text \<open>
  \<open>details.find(detail => detail["@type"] === "type.googleapis.com/google.rpc.RetryInfo")\<close>:
  reading a property of \<open>null\<close> throws, other values without the property are passed.
\<close>

datatype find_result = TypeError | NotFound | Found "(string \<times> json) list"

fun find_RetryInfo :: "json list \<Rightarrow> find_result" where
  "find_RetryInfo [] = NotFound"
| "find_RetryInfo (JNull # details) = TypeError"
| "find_RetryInfo (JObject detail # details) =
     (if map_of detail ''@type'' = Some (JString ''type.googleapis.com/google.rpc.RetryInfo'')
      then Found detail else find_RetryInfo details)"
| "find_RetryInfo (_ # details) = find_RetryInfo details"

text \<open>
  \<open>parseRetryDelay\<close>. Every exception inside the \<open>try\<close> ends in \<open>return 0\<close>: a
  text that does not parse, a property read on \<open>null\<close>, \<open>find\<close> on a value that is
  not an array, \<open>replace\<close> on a value that is not a string. \<open>times_1000\<close> is the
  product \<open>seconds * 1000\<close> of numbers.
\<close>

definition times_1000 :: "number \<Rightarrow> number" where
  "times_1000 x =
     (case x of
        NaN \<Rightarrow> NaN
      | Num seconds \<Rightarrow> to_number (seconds * 1000)
      | PosInfinity \<Rightarrow> PosInfinity
      | NegInfinity \<Rightarrow> NegInfinity)"

definition parseRetryDelay :: "(string \<Rightarrow> json option) \<Rightarrow> string \<Rightarrow> number" where
  "parseRetryDelay JSON_parse errorText_arg =
     (case JSON_parse errorText_arg of
        Some (JObject errorData) \<Rightarrow>
          (case map_of errorData ''error'' of
             Some (JObject err) \<Rightarrow>
               (case map_of err ''details'' of
                  Some (JArray details) \<Rightarrow>
                    (case find_RetryInfo details of
                       Found retryInfo \<Rightarrow>
                         (case map_of retryInfo ''retryDelay'' of
                            Some (JString delayString) \<Rightarrow>
                              (if delayString = [] then Num 0
                               else times_1000 (parseInt (replace_s delayString)))
                          | _ \<Rightarrow> Num 0)
                     | _ \<Rightarrow> Num 0)
                | _ \<Rightarrow> Num 0)
           | _ \<Rightarrow> Num 0)
      | _ \<Rightarrow> Num 0)"

text \<open>
  The classification of a failure as a rate limit:
  \<open>error instanceof Error && error.message.includes("Too Many Requests")\<close>.
\<close>

fun isRateLimit :: "thrown \<Rightarrow> bool" where
  "isRateLimit Nullish = False"
| "isRateLimit (Exn is_Error msg _ _) = (is_Error \<and> str_includes msg ''Too Many Requests'')"

text \<open>
  What the controller does besides calling \<open>fn\<close>, in order: a status update through
  \<open>updateDocumentStatus\<close> (the specification's \<open>onRetry\<close> hook), with the seconds it
  announces, and a wait, with its milliseconds.
\<close>

datatype retry_event = StatusHook number | Wait number


text \<open>
  \<open>retryWithBackoff\<close>. \<open>fn\<close> acts on the world and returns or throws. The
  \<open>for\<close> loop is \<open>retry_loop\<close>, from the current \<open>attempt\<close> with the loop
  variables \<open>lastError\<close> and \<open>lastErrorText\<close>; the result is what the function
  returns or throws, the world it leaves and the events above. \<open>maxRetries\<close> and
  \<open>baseDelay\<close> are natural numbers; \<open>Math.round(delayMs / 1000)\<close> is
  \<open>round_seconds\<close>, on the exact quotient, and \<open>retry_notice\<close> is the message
  of the status update; \<open>db\<close> says whether a store was passed, and
  \<open>documentId\<close> and \<open>stepName\<close> are optional as in the source;
  \<open>hook_target\<close> is the test \<open>db && documentId && stepName\<close>. Reading
  \<open>errorText\<close> of a \<open>Nullish\<close> value in the \<open>catch\<close> block throws a
  \<open>TypeError\<close>, which leaves the function.
\<close>

definition hook_target :: "bool \<Rightarrow> nat option \<Rightarrow> string option \<Rightarrow> (nat \<times> string) option" where
  "hook_target db documentId stepName =
     (if db
      then (case documentId of
              None \<Rightarrow> None
            | Some i \<Rightarrow>
                if i = 0 then None
                else (case stepName of
                        None \<Rightarrow> None
                      | Some s \<Rightarrow> if s = [] then None else Some (i, s)))
      else None)"

definition retry_delay :: "(string \<Rightarrow> json option) \<Rightarrow> nat \<Rightarrow> nat \<Rightarrow> string \<Rightarrow> number" where
  "retry_delay JSON_parse baseDelay attempt lastErrorText =
     (case parseRetryDelay JSON_parse lastErrorText of
        Num apiRetryDelay \<Rightarrow>
          if apiRetryDelay > 0 then Num apiRetryDelay
          else to_number (int baseDelay * 2 ^ (attempt - 1))
      | PosInfinity \<Rightarrow> PosInfinity
      | _ \<Rightarrow> to_number (int baseDelay * 2 ^ (attempt - 1)))"

definition round_seconds :: "number \<Rightarrow> number" where
  "round_seconds delayMs =
     (case delayMs of Num ms \<Rightarrow> Num (Math_round (of_int ms / 1000)) | x \<Rightarrow> x)"

definition retry_notice :: "number \<Rightarrow> string" where
  "retry_notice waitSeconds =
     ''Rate limit reached. Waiting '' @ number_text waitSeconds @ '' seconds before retrying...''"

definition before_retry ::
  "(string \<Rightarrow> json option) \<Rightarrow> nat \<Rightarrow> bool \<Rightarrow> nat option \<Rightarrow> string option \<Rightarrow> nat \<Rightarrow> string
   \<Rightarrow> world \<Rightarrow> world \<times> retry_event list" where
  "before_retry JSON_parse baseDelay db documentId stepName attempt lastErrorText w =
     (if attempt > 0
      then (let delayMs = retry_delay JSON_parse baseDelay attempt lastErrorText;
                waitSeconds = round_seconds delayMs
            in (case hook_target db documentId stepName of
                  Some (i, s) \<Rightarrow>
                    (delay (asked_ms delayMs)
                       (updateDocumentStatus i s (retry_notice waitSeconds) None w),
                     [StatusHook waitSeconds, Wait delayMs])
                | None \<Rightarrow> (delay (asked_ms delayMs) w, [Wait delayMs])))
      else (w, []))"

function retry_loop ::
  "(string \<Rightarrow> json option) \<Rightarrow> (world \<Rightarrow> (thrown + 'a) \<times> world) \<Rightarrow> nat \<Rightarrow> nat
   \<Rightarrow> bool \<Rightarrow> nat option \<Rightarrow> string option \<Rightarrow> nat \<Rightarrow> thrown \<Rightarrow> string \<Rightarrow> world
   \<Rightarrow> (thrown + 'a) \<times> world \<times> retry_event list" where
  "retry_loop JSON_parse fn maxRetries baseDelay db documentId stepName attempt lastError
       lastErrorText w =
     (if attempt \<le> maxRetries
      then (case before_retry JSON_parse baseDelay db documentId stepName attempt lastErrorText w of
              (w1, events) \<Rightarrow>
                (case fn w1 of
                   (Inr result, w2) \<Rightarrow> (Inr result, w2, events)
                 | (Inl Nullish, w2) \<Rightarrow>
                     (Inl (Exn True ''Cannot read properties of undefined'' [] []), w2, events)
                 | (Inl (Exn is_Error msg etext rtext), w2) \<Rightarrow>
                     (if attempt = maxRetries
                      then (Inl (Exn is_Error msg etext rtext), w2, events)
                      else if isRateLimit (Exn is_Error msg etext rtext)
                      then (case retry_loop JSON_parse fn maxRetries baseDelay db documentId
                                   stepName (Suc attempt) (Exn is_Error msg etext rtext)
                                   (if etext \<noteq> [] then etext else if rtext \<noteq> [] then rtext
                                    else [])
                                   w2 of
                              (outcome, w3, events') \<Rightarrow> (outcome, w3, events @ events'))
                      else (Inl (Exn is_Error msg etext rtext), w2, events))))
      else (Inl lastError, w, []))"
  by pat_completeness auto
termination
  by (relation "measure (\<lambda>(JSON_parse, fn, maxRetries, baseDelay, db, documentId, stepName,
                            attempt, lastError, lastErrorText, w). Suc maxRetries - attempt)")
    auto

declare retry_loop.simps [simp del]

definition retryWithBackoff ::
  "(string \<Rightarrow> json option) \<Rightarrow> (world \<Rightarrow> (thrown + 'a) \<times> world) \<Rightarrow> nat \<Rightarrow> nat
   \<Rightarrow> bool \<Rightarrow> nat option \<Rightarrow> string option \<Rightarrow> world
   \<Rightarrow> (thrown + 'a) \<times> world \<times> retry_event list" where
  "retryWithBackoff JSON_parse fn maxRetries baseDelay db documentId stepName w =
     retry_loop JSON_parse fn maxRetries baseDelay db documentId stepName 0 Nullish [] w"

section \<open>Summarization stage\<close>

text \<open>
  The function that \<open>createSectionSummary\<close> hands to the controller: one request to
  the service, whose reply is the next one of the world. The prompt, built from the
  section title and content, is not part of the model; a reply is any
  \<open>fetch_outcome\<close>.
\<close>

definition summary_request :: "world \<Rightarrow> (thrown + string) \<times> world" where
  "summary_request w =
     (let w' = w\<lparr>requests := Suc (requests w)\<rparr> in
      case gemini w (requests w) of
        Rejected e \<Rightarrow> (Inl e, w')
      | NotOk statusText body_text \<Rightarrow>
          (Inl (Exn True (''Gemini API error: '' @ statusText) body_text []), w')
      | OkBody None \<Rightarrow> (Inl (Exn True ''No summary returned from Gemini'' [] []), w')
      | OkBody (Some summaryText) \<Rightarrow>
          if summaryText = [] then (Inl (Exn True ''No summary returned from Gemini'' [] []), w')
          else (Inr (trim summaryText), w'))"

definition createSectionSummary ::
  "(string \<Rightarrow> json option) \<Rightarrow> string \<Rightarrow> string \<Rightarrow> string \<Rightarrow> string \<Rightarrow> nat \<Rightarrow> world
   \<Rightarrow> (thrown + string) \<times> world" where
  "createSectionSummary JSON_parse sectionTitle sectionContent apiKey_arg selectedModel_arg
       documentId w =
     (case retryWithBackoff JSON_parse summary_request 3 1000 True (Some documentId)
             (Some ''generating_summaries'') w of
        (outcome, w', events) \<Rightarrow> (outcome, w'))"

section \<open>Continuation stage\<close>

text \<open>
  The request of the route: the \<open>apiKey\<close> query parameter, and the fields of the JSON
  body (a missing string is empty, a missing \<open>documentId\<close> is 0). The response is its
  HTTP status and its JSON payload.
\<close>

record continue_request =
  apiKey :: "string option"
  documentId :: nat
  selectedModel :: string
  fileData :: string
  fileName :: string
  documentText :: string
  updatedTableOfContents :: "Section list option"

datatype payload =
  Error string
| ProcessingFailed string
| Success nat

type_synonym response = "nat \<times> payload"

text \<open>
  The body of the \<open>for\<close> loop over the sections, for the section \<open>sec\<close> of index
  \<open>i\<close> out of \<open>n\<close>: it returns normally or leaves with the value that the
  summary threw.
\<close>

definition summarize_section ::
  "(string \<Rightarrow> json option) \<Rightarrow> continue_request \<Rightarrow> string \<Rightarrow> nat \<Rightarrow> nat \<Rightarrow> Section
   \<Rightarrow> Section option \<Rightarrow> world \<Rightarrow> (thrown + unit) \<times> world" where
  "summarize_section JSON_parse req key n i sec nextSection w =
     (let initialProgress = 75 + (of_nat i / of_nat n) * 25;
          w1 = updateDocumentStatus (documentId req) ''generating_summaries''
                 (''Processing section '' @ decimal (i + 1) @ ''/'' @ decimal n @ '': ''
                  @ title sec)
                 (Some (Math_round initialProgress)) w;
          w2 = (if i > 0 then delay 2000 w1 else w1);
          sectionContent = extractSectionContent (documentText req) sec nextSection;
          w3 = updateDocumentStatus (documentId req) ''generating_summaries''
                 (''Analyzing section '' @ decimal (i + 1) @ ''/'' @ decimal n @ '': ''
                  @ title sec @ '' with AI...'')
                 (Some (Math_round (75 + (of_nat i / of_nat n) * 25))) w2
      in case createSectionSummary JSON_parse (title sec) sectionContent key (selectedModel req)
                (documentId req) w3 of
           (Inl e, w4) \<Rightarrow> (Inl e, w4)
         | (Inr summary_text, w4) \<Rightarrow>
             (let w5 = updateDocumentStatus (documentId req) ''generating_pdfs''
                         (''Generating PDF for section: '' @ title sec @ '' (''
                          @ decimal (i + 1) @ ''/'' @ decimal n @ '')'')
                         (Some (Math_round (75 + (of_nat (i + 1) / of_nat n) * 20))) w4;
                  w6 = w5\<lparr>sections := sections w5 @
                          [\<lparr>row_documentId = documentId req, row_title = title sec,
                            summary = summary_text, startPage = start_page sec,
                            endPage = end_page sec, sectionNumber = i + 1,
                            pdfPath = None\<rparr>]\<rparr>;
                  sectionProgress = 75 + (of_nat (i + 1) / of_nat n) * 25;
                  w7 = updateDocumentStatus (documentId req) ''generating_summaries''
                         (''Completed section '' @ decimal (i + 1) @ ''/'' @ decimal n @ '': ''
                          @ title sec @ '' (summary generated)'')
                         (Some (Math_round sectionProgress)) w6
              in (Inr (), w7)))"

text \<open>
  The loop itself, from index \<open>i\<close>: \<open>sec # rest\<close> are the sections from \<open>i\<close>
  on, so that \<open>nextSection\<close>, which is \<open>sections[i + 1]\<close>, is the first of
  \<open>rest\<close> or undefined.
\<close>

fun summarize_sections ::
  "(string \<Rightarrow> json option) \<Rightarrow> continue_request \<Rightarrow> string \<Rightarrow> nat \<Rightarrow> nat \<Rightarrow> Section list
   \<Rightarrow> Section list \<Rightarrow> world \<Rightarrow> (thrown + Section list) \<times> world" where
  "summarize_sections JSON_parse req key n i [] validSections w = (Inr validSections, w)"
| "summarize_sections JSON_parse req key n i (sec # rest) validSections w =
     (case summarize_section JSON_parse req key n i sec
             (case rest of [] \<Rightarrow> None | s # _ \<Rightarrow> Some s) w of
        (Inl e, w') \<Rightarrow> (Inl e, w')
      | (Inr _, w') \<Rightarrow>
          summarize_sections JSON_parse req key n (i + 1) rest (validSections @ [sec]) w')"

text \<open>
  The outline that the stage summarizes:
  \<open>updatedTableOfContents || JSON.parse(document.tableOfContents || "[]")\<close>. An
  array in the request, empty or not, is taken.
\<close>

definition outline_of :: "continue_request \<Rightarrow> document \<Rightarrow> Section list" where
  "outline_of req doc =
     (case updatedTableOfContents req of
        Some toc \<Rightarrow> toc
      | None \<Rightarrow> (case tableOfContents doc of None \<Rightarrow> [] | Some toc \<Rightarrow> toc))"

text \<open>
  The part of \<open>action\<close> after the document has been verified: approval, the loop, the
  final updates; and the \<open>catch\<close> that records a failure.
\<close>

definition record_failure :: "nat \<Rightarrow> thrown \<Rightarrow> world \<Rightarrow> response \<times> world" where
  "record_failure doc_id processingError w =
     (let msg = (case processingError of
                   Nullish \<Rightarrow> ''Unknown processing error''
                 | Exn is_Error m _ _ \<Rightarrow> if is_Error then m else ''Unknown processing error'');
          details = (case processingError of
                       Nullish \<Rightarrow> ''Unknown error''
                     | Exn is_Error m _ _ \<Rightarrow> if is_Error then m else ''Unknown error'')
      in ((500, ProcessingFailed details),
          db_update doc_id (\<lambda>d. d\<lparr>status := failed, errorMessage := Some msg\<rparr>) None w))"

definition continue_processing ::
  "(string \<Rightarrow> json option) \<Rightarrow> continue_request \<Rightarrow> string \<Rightarrow> document \<Rightarrow> world
   \<Rightarrow> response \<times> world" where
  "continue_processing JSON_parse req key doc w =
     (let w1 = db_update (documentId req)
                 (\<lambda>d. d\<lparr>status := processing, outlineApprovedAt := Some (clock w)\<rparr>) None w;
          secs = outline_of req doc;
          w2 = updateDocumentStatus (documentId req) ''generating_summaries''
                 ''Generating detailed summaries for each section... Processing sections one by one with AI.''
                 (Some 75) w1
      in case summarize_sections JSON_parse req key (length secs) 0 secs [] w2 of
           (Inl processingError, w3) \<Rightarrow> record_failure (documentId req) processingError w3
         | (Inr validSections, w3) \<Rightarrow>
             (let w4 = updateDocumentStatus (documentId req) ''generating_summaries''
                         (''All section summaries generated. Successfully processed ''
                          @ decimal (length validSections) @ '' sections.'')
                         (Some 95) w3;
                  w5 = updateDocumentStatus (documentId req) ''finalizing''
                         ''Finalizing document processing... Updating final status and completion timestamp.''
                         (Some 98) w4;
                  w6 = db_update (documentId req)
                         (\<lambda>d. d\<lparr>status := completed, currentStep := Some ''completed'',
                               statusMessage :=
                                 Some (''Processing completed successfully! Generated ''
                                       @ decimal (length validSections)
                                       @ '' section summaries.''),
                               completedAt := Some (clock w5)\<rparr>)
                         (Some 100) w5
              in ((200, Success (length validSections)), w6)))"

text \<open>
  \<open>action\<close> of the continuation route: the checks that reject a request, then the
  processing. The store itself does not fail.
\<close>

definition action :: "(string \<Rightarrow> json option) \<Rightarrow> continue_request \<Rightarrow> world \<Rightarrow> response \<times> world" where
  "action JSON_parse req w =
     (case apiKey req of
        None \<Rightarrow> ((400, Error ''API key is required''), w)
      | Some key \<Rightarrow>
          if key = [] then ((400, Error ''API key is required''), w)
          else if documentId req = 0 \<or> selectedModel req = [] \<or> fileData req = []
                  \<or> documentText req = []
          then ((400, Error ''Missing required parameters''), w)
          else (case documents w (documentId req) of
                  None \<Rightarrow> ((404, Error ''Document not found''), w)
                | Some doc \<Rightarrow>
                    if status doc \<noteq> awaiting_outline_approval
                    then ((400, Error ''Document not awaiting approval''), w)
                    else continue_processing JSON_parse req key doc w))"

section \<open>Example inputs\<close>

text \<open>
  A five-page text with its markers; the heading \<open>The X files\<close> is the second line
  of page 2.
\<close>

definition five_pages :: string where
  "five_pages = join_nl
     [''=== PAGE 1 ==='', ''intro'',
      ''=== PAGE 2 ==='', ''before'', ''The X files'', ''more'',
      ''=== PAGE 3 ==='', ''third'',
      ''=== PAGE 4 ==='', ''fourth'',
      ''=== PAGE 5 ==='', ''fifth'']"

definition section_X :: Section where
  "section_X = \<lparr>title = ''X'', start_page = 2, end_page = 4, start_text = None, end_text = None\<rparr>"

text \<open>
  The same text with another first line on page 2, \<open>extra\<close>, which has an
  \<open>x\<close> but no \<open>X\<close>; a next section whose title, \<open>the x\<close>, is in the
  heading line in another case; and a next section that begins on the line
  \<open>fourth\<close>.
\<close>

definition five_pages_extra :: string where
  "five_pages_extra = join_nl
     [''=== PAGE 1 ==='', ''intro'',
      ''=== PAGE 2 ==='', ''extra'', ''The X files'', ''more'',
      ''=== PAGE 3 ==='', ''third'',
      ''=== PAGE 4 ==='', ''fourth'',
      ''=== PAGE 5 ==='', ''fifth'']"

definition section_the_x :: Section where
  "section_the_x =
     \<lparr>title = ''the x'', start_page = 4, end_page = 5, start_text = None, end_text = None\<rparr>"

definition section_fourth :: Section where
  "section_fourth =
     \<lparr>title = ''Fourth'', start_page = 4, end_page = 5, start_text = None, end_text = None\<rparr>"

text \<open>A text whose markers go back from page 3 to page 1, and a section on pages 2 to 4
  whose title is not in the text.\<close>

definition pages_3_then_1 :: string where
  "pages_3_then_1 = join_nl [''=== PAGE 3 ==='', ''a'', ''=== PAGE 1 ==='', ''b'']"

definition section_Q :: Section where
  "section_Q = \<lparr>title = ''Q'', start_page = 2, end_page = 4, start_text = None, end_text = None\<rparr>"

text \<open>
  A text whose two markers carry \<open>2^53\<close> and \<open>2^53 + 1\<close>, and a section on the
  page \<open>2^53\<close> alone whose title is not in the text.
\<close>

definition pages_beyond_safe :: string where
  "pages_beyond_safe =
     join_nl [''=== PAGE 9007199254740992 ==='', ''a'', ''=== PAGE 9007199254740993 ==='', ''b'']"

definition section_beyond_safe :: Section where
  "section_beyond_safe =
     \<lparr>title = ''Q'', start_page = 9007199254740992, end_page = 9007199254740992,
      start_text = None, end_text = None\<rparr>"

text \<open>
  A parser that knows one error body, \<open>quota\<close>, which carries a retry interval of
  7 seconds; and the failures and replies used below.
\<close>

definition quota_parse :: "string \<Rightarrow> json option" where
  "quota_parse s =
     (if s = ''quota''
      then Some (JObject [(''error'', JObject [(''details'', JArray
             [JObject [(''@type'', JString ''type.googleapis.com/google.rpc.RetryInfo''),
                       (''retryDelay'', JString ''7s'')]])])])
      else None)"

definition rate_limited :: thrown where
  "rate_limited = Exn True ''Gemini API error: Too Many Requests'' ''quota'' []"

definition not_found :: thrown where
  "not_found = Exn True ''Gemini API error: Not Found'' [] []"

text \<open>A function for the controller that counts its calls and always fails with
  \<open>not_found\<close>.\<close>

definition failing_call :: "world \<Rightarrow> (thrown + string) \<times> world" where
  "failing_call w = (Inl not_found, w\<lparr>requests := Suc (requests w)\<rparr>)"

text \<open>
  A document that awaits approval of a one-section outline, in a store with no section
  rows, and a service that answers every request with a summary. \<open>resume\<close> is the
  request that resumes it with the stored outline; \<open>resume_edited\<close> sends an edited
  outline whose only section runs from page 5 back to page 2.
\<close>

definition awaiting_doc :: document where
  "awaiting_doc =
     \<lparr>status = awaiting_outline_approval, currentStep = Some ''awaiting_outline_approval'',
      progress = 65, statusMessage = Some ''Outline generated!'',
      tableOfContents = Some [section_X], outlineApprovedAt = None, completedAt = None,
      errorMessage = None\<rparr>"

definition store :: world where
  "store =
     \<lparr>documents = [1 \<mapsto> awaiting_doc], sections = [], progressLog = [], statusLog = [],
      clock = 0,
      gemini = (\<lambda>n. OkBody (Some ''* a point'')), requests = 0\<rparr>"

definition resume :: continue_request where
  "resume =
     \<lparr>apiKey = Some ''key'', documentId = 1, selectedModel = ''gemini'', fileData = ''data'',
      fileName = ''a.pdf'', documentText = five_pages, updatedTableOfContents = None\<rparr>"

definition backwards :: Section where
  "backwards = \<lparr>title = ''X'', start_page = 5, end_page = 2, start_text = None, end_text = None\<rparr>"

definition resume_edited :: continue_request where
  "resume_edited = resume\<lparr>updatedTableOfContents := Some [backwards]\<rparr>"


text \<open>The same store after the run has completed.\<close>

definition completed_store :: world where
  "completed_store = store\<lparr>documents := [1 \<mapsto> awaiting_doc\<lparr>status := completed, progress := 100\<rparr>]\<rparr>"

section \<open>Properties of the chunking engine\<close>

lemma is_ws_nl [simp]: "is_ws nl"
  by (simp add: is_ws_def nl_def)

lemma filter_dropWhile_ws:
  "filter (\<lambda>c. \<not> is_ws c) (dropWhile is_ws s) = filter (\<lambda>c. \<not> is_ws c) s"
  by (induction s) auto

lemma filter_trim: "filter (\<lambda>c. \<not> is_ws c) (trim s) = filter (\<lambda>c. \<not> is_ws c) s"
proof -
  have "filter (\<lambda>c. \<not> is_ws c) (trim s)
      = rev (filter (\<lambda>c. \<not> is_ws c) (dropWhile is_ws (rev (dropWhile is_ws s))))"
    by (simp add: trim_def rev_filter)
  also have "\<dots> = rev (filter (\<lambda>c. \<not> is_ws c) (rev (dropWhile is_ws s)))"
    by (simp only: filter_dropWhile_ws)
  also have "\<dots> = filter (\<lambda>c. \<not> is_ws c) (dropWhile is_ws s)"
    by (simp add: rev_filter)
  finally show ?thesis
    by (simp add: filter_dropWhile_ws)
qed

lemma split_nl_nonempty [simp]: "split_nl s \<noteq> []"
  by (induction s) (auto split: list.splits)

lemma filter_split_nl:
  "filter (\<lambda>c. \<not> is_ws c) (concat (map (\<lambda>l. l @ [nl]) (split_nl s))) = filter (\<lambda>c. \<not> is_ws c) s"
  by (induction s) (auto split: list.splits)

lemma filter_chunk_loop:
  "chunk_loop B ls chunks cur = (chunks', cur') \<Longrightarrow>
   filter (\<lambda>c. \<not> is_ws c) (concat chunks' @ cur')
   = filter (\<lambda>c. \<not> is_ws c) (concat chunks @ cur @ concat (map (\<lambda>l. l @ [nl]) ls))"
proof (induction B ls chunks cur rule: chunk_loop.induct)
  case (1 maxChars chunks currentChunk)
  then show ?case by simp
next
  case (2 maxChars line lines chunks currentChunk)
  show ?case
  proof (cases "int (length (currentChunk @ line)) > maxChars \<and> length currentChunk > 0")
    case True
    with 2 show ?thesis by (simp add: filter_trim)
  next
    case False
    with 2 show ?thesis by auto
  qed
qed

lemma chunks_keep_text:
  "filter (\<lambda>c. \<not> is_ws c) (concat (chunkTextForProcessing T B)) = filter (\<lambda>c. \<not> is_ws c) T"
proof (cases "int (length T) \<le> B")
  case True
  then show ?thesis by (simp add: chunkTextForProcessing_def)
next
  case False
  obtain chunks cur where loop: "chunk_loop B (split_nl T) [] [] = (chunks, cur)"
    by (cases "chunk_loop B (split_nl T) [] []") auto
  from filter_chunk_loop [OF loop]
  have inv: "filter (\<lambda>c. \<not> is_ws c) (concat chunks @ cur) = filter (\<lambda>c. \<not> is_ws c) T"
    by (simp add: filter_split_nl)
  show ?thesis
  proof (cases "trim cur = []")
    case True
    then have "filter (\<lambda>c. \<not> is_ws c) cur = []"
      using filter_trim [of cur] by simp
    with inv False loop True show ?thesis
      by (simp add: chunkTextForProcessing_def)
  next
    case nonblank: False
    with inv False loop show ?thesis
      by (simp add: chunkTextForProcessing_def filter_trim)
  qed
qed

text \<open>
  C1 (as stated, refuted). With a budget of 3 the two-line text \<open>aaa\<newline>bbb\<close> is cut
  into the chunks \<open>aaa\<close> and \<open>bbb\<close>: each chunk is trimmed, the newline between
  them is gone and the concatenation is not the text.
\<close>

theorem chunking_lossless_counterexample:
  "chunkTextForProcessing ''aaa\<newline>bbb'' 3 = [''aaa'', ''bbb'']
   \<and> concat (chunkTextForProcessing ''aaa\<newline>bbb'' 3) \<noteq> ''aaa\<newline>bbb''"
  by (simp add: chunkTextForProcessing_def trim_def is_ws_def nl_def)

text \<open>
  C1 (amended). For every text \<open>T\<close> and budget \<open>B\<close> the chunks lose white space
  only: their concatenation has the same characters other than white space as \<open>T\<close>,
  in the same order; and a text within the budget comes back as it is.
\<close>

theorem chunking_lossless_up_to_whitespace:
  "filter (\<lambda>c. \<not> is_ws c) (concat (chunkTextForProcessing T B)) = filter (\<lambda>c. \<not> is_ws c) T
   \<and> (int (length T) \<le> B \<longrightarrow> concat (chunkTextForProcessing T B) = T)"
  by (simp add: chunks_keep_text) (simp add: chunkTextForProcessing_def)

theorem chunking_lossless_up_to_whitespace_witness:
  "int (length ''ab cd'') \<le> 9 \<and> concat (chunkTextForProcessing ''ab cd'' 9) = ''ab cd''
   \<and> filter (\<lambda>c. \<not> is_ws c) (concat (chunkTextForProcessing ''ab\<newline>cd'' 3)) = ''abcd''"
  using chunking_lossless_up_to_whitespace [of "''ab cd''" 9]
    chunking_lossless_up_to_whitespace [of "''ab\<newline>cd''" 3]
  by (simp add: is_ws_def nl_def)

text \<open>
  C8 (as stated, refuted). A text of three spaces with a budget of 1 is over the
  budget, the buffer left after the loop trims to the empty string and is not
  pushed: no chunk is returned. The empty text is within any budget 5 and comes back
  as one chunk, the empty string.
\<close>

theorem chunks_nonempty_counterexample:
  "chunkTextForProcessing ''   '' 1 = [] \<and> chunkTextForProcessing '''' 5 = ['''']"
  by (simp add: chunkTextForProcessing_def trim_def is_ws_def nl_def)

text \<open>
  C8 (amended). For every text with a character that is not white space, and every
  budget, at least one chunk is returned and one of the chunks is not empty; a text
  within the budget is returned as the single chunk.
\<close>

theorem chunks_nonempty_for_nonblank_text:
  "(\<exists>c \<in> set T. \<not> is_ws c) \<longrightarrow>
     chunkTextForProcessing T B \<noteq> [] \<and> (\<exists>ch \<in> set (chunkTextForProcessing T B). ch \<noteq> [])
     \<and> (int (length T) \<le> B \<longrightarrow> chunkTextForProcessing T B = [T])"
proof (intro impI conjI)
  assume nonblank: "\<exists>c \<in> set T. \<not> is_ws c"
  then have "filter (\<lambda>c. \<not> is_ws c) T \<noteq> []"
    by (simp add: filter_empty_conv)
  have "concat (chunkTextForProcessing T B) \<noteq> []"
  proof
    assume "concat (chunkTextForProcessing T B) = []"
    then have "filter (\<lambda>c. \<not> is_ws c) (concat (chunkTextForProcessing T B)) = []"
      by (simp only: filter.simps)
    with \<open>filter (\<lambda>c. \<not> is_ws c) T \<noteq> []\<close> show False
      by (simp add: chunks_keep_text)
  qed
  then show some: "\<exists>ch \<in> set (chunkTextForProcessing T B). ch \<noteq> []"
    by auto
  then show "chunkTextForProcessing T B \<noteq> []"
    by auto
  assume "int (length T) \<le> B"
  then show "chunkTextForProcessing T B = [T]"
    by (simp add: chunkTextForProcessing_def)
qed

theorem chunks_nonempty_for_nonblank_text_witness:
  "(\<exists>c \<in> set ''ab cd''. \<not> is_ws c) \<and> int (length ''ab cd'') \<le> 9
   \<and> chunkTextForProcessing ''ab cd'' 9 = [''ab cd'']"
  using chunks_nonempty_for_nonblank_text [of "''ab cd''" 9]
  by (simp add: is_ws_def)

section \<open>Properties of the string operations\<close>

lemma str_includes_sublist: "str_includes s sub \<longleftrightarrow> sublist sub s"
  by (induction s) (auto simp: sublist_Cons_right)

lemma str_includes_toLowerCase:
  "str_includes s sub \<Longrightarrow> str_includes (toLowerCase s) (toLowerCase sub)"
  by (simp add: str_includes_sublist toLowerCase_def map_mono_sublist)

lemma split_nl_no_nl: "l \<in> set (split_nl s) \<Longrightarrow> nl \<notin> set l"
proof (induction s arbitrary: l)
  case Nil
  then show ?case by simp
next
  case (Cons c cs)
  obtain l0 ls0 where sp: "split_nl cs = l0 # ls0"
    by (cases "split_nl cs") auto
  show ?case
  proof (cases "c = nl")
    case True
    with Cons show ?thesis by auto
  next
    case False
    with Cons.prems sp have "l = c # l0 \<or> l \<in> set ls0"
      by simp
    with Cons.IH sp False show ?thesis
      by auto
  qed
qed

lemma split_nl_plain: "nl \<notin> set l \<Longrightarrow> split_nl l = [l]"
  by (induction l) auto

lemma split_nl_line: "nl \<notin> set l \<Longrightarrow> split_nl (l @ nl # s) = l # split_nl s"
  by (induction l) auto

lemma split_nl_unlines:
  "\<forall>l \<in> set ls. nl \<notin> set l \<Longrightarrow> split_nl (unlines ls) = ls @ [[]]"
  by (induction ls) (auto simp: unlines_def split_nl_line)

lemma split_nl_join_nl:
  "ls \<noteq> [] \<Longrightarrow> \<forall>l \<in> set ls. nl \<notin> set l \<Longrightarrow> split_nl (join_nl ls) = ls"
proof (induction ls rule: join_nl.induct)
  case 1
  then show ?case by simp
next
  case (2 l)
  then show ?case by (simp add: split_nl_plain)
next
  case (3 l v va)
  then show ?case by (simp add: split_nl_line)
qed

text \<open>The lines of a piece of a text are pieces of the lines of the text.\<close>

lemma split_nl_append:
  "split_nl (m @ b)
   = butlast (split_nl m) @ [last (split_nl m) @ hd (split_nl b)] @ tl (split_nl b)"
proof (induction m)
  case Nil
  then show ?case by simp
next
  case (Cons c m)
  obtain l0 ls0 where sp: "split_nl m = l0 # ls0"
    by (cases "split_nl m") auto
  show ?case
  proof (cases "ls0 = []")
    case True
    with Cons sp show ?thesis by simp
  next
    case False
    with Cons sp show ?thesis by simp
  qed
qed

lemma split_nl_append_left:
  assumes "l \<in> set (split_nl m)"
  shows "\<exists>l' \<in> set (split_nl (a @ m)). suffix l l'"
proof -
  obtain l0 ls0 where sp: "split_nl m = l0 # ls0"
    by (cases "split_nl m") auto
  with assms have "l = l0 \<or> l \<in> set ls0"
    by simp
  then show ?thesis
  proof
    assume "l = l0"
    then have "suffix l (last (split_nl a) @ hd (split_nl m))"
      using sp by (simp add: suffix_def)
    then show ?thesis
      by (subst split_nl_append) auto
  next
    assume "l \<in> set ls0"
    then have "l \<in> set (tl (split_nl m))"
      using sp by simp
    then show ?thesis
      by (subst split_nl_append) auto
  qed
qed

lemma split_nl_append_right:
  assumes "l \<in> set (split_nl m)"
  shows "\<exists>l' \<in> set (split_nl (m @ b)). prefix l l'"
proof -
  have "split_nl m = butlast (split_nl m) @ [last (split_nl m)]"
    by simp
  with assms have "l \<in> set (butlast (split_nl m)) \<or> l = last (split_nl m)"
    by (metis Un_iff empty_iff empty_set set_ConsD set_append)
  then show ?thesis
  proof
    assume "l \<in> set (butlast (split_nl m))"
    then show ?thesis
      by (subst split_nl_append) auto
  next
    assume "l = last (split_nl m)"
    then have "prefix l (last (split_nl m) @ hd (split_nl b))"
      by simp
    then show ?thesis
      by (subst split_nl_append) auto
  qed
qed

lemma split_nl_piece:
  assumes "l \<in> set (split_nl m)"
  shows "\<exists>l' \<in> set (split_nl (a @ m @ b)). sublist l l'"
proof -
  from split_nl_append_right [OF assms, of b]
  obtain l1 where l1: "l1 \<in> set (split_nl (m @ b))" "prefix l l1"
    by blast
  from split_nl_append_left [OF l1(1), of a]
  obtain l2 where l2: "l2 \<in> set (split_nl (a @ m @ b))" "suffix l1 l2"
    by blast
  from l1(2) l2(2) have "sublist l l2"
    by (meson prefix_imp_sublist suffix_imp_sublist sublist_order.order_trans)
  with l2(1) show ?thesis by blast
qed

lemma trim_piece: "\<exists>a b. s = a @ trim s @ b"
proof -
  define d where "d = dropWhile is_ws s"
  have "s = takeWhile is_ws s @ d"
    by (simp add: d_def)
  moreover have "rev d = takeWhile is_ws (rev d) @ dropWhile is_ws (rev d)"
    by simp
  then have "d = rev (dropWhile is_ws (rev d)) @ rev (takeWhile is_ws (rev d))"
    by (metis rev_append rev_rev_ident)
  then have "d = trim s @ rev (takeWhile is_ws (rev d))"
    by (simp add: trim_def d_def)
  ultimately show ?thesis
    by metis
qed

lemma trim_nonblank: "\<exists>c \<in> set s. \<not> is_ws c \<Longrightarrow> trim s \<noteq> []"
proof
  assume "\<exists>c \<in> set s. \<not> is_ws c" and "trim s = []"
  then have "filter (\<lambda>c. \<not> is_ws c) s = []"
    using filter_trim [of s] by simp
  with \<open>\<exists>c \<in> set s. \<not> is_ws c\<close> show False
    by (simp add: filter_empty_conv)
qed

section \<open>Properties of the section content extractor\<close>

lemma marker_at_append: "marker_at s = Some ds \<Longrightarrow> marker_at (s @ q) = Some ds"
proof -
  assume m: "marker_at s = Some ds"
  then have pre: "prefix ''=== PAGE '' s"
    by (auto simp: marker_at_def split: if_splits)
  then have len: "9 \<le> length s"
    by (auto dest: prefix_length_le)
  define r where "r = drop 9 s"
  from m pre have ds: "ds = takeWhile is_digit r" "ds \<noteq> []"
    and rest: "prefix '' ==='' (dropWhile is_digit r)"
    by (auto simp: marker_at_def r_def Let_def split: if_splits)
  have "dropWhile is_digit r \<noteq> []"
  proof
    assume "dropWhile is_digit r = []"
    with rest show False by simp
  qed
  then have stop: "\<exists>c \<in> set r. \<not> is_digit c"
    by (simp add: dropWhile_eq_Nil_conv)
  then have tw: "takeWhile is_digit (r @ q) = takeWhile is_digit r"
    by (metis takeWhile_append1)
  from stop have dw: "dropWhile is_digit (r @ q) = dropWhile is_digit r @ q"
    by (metis dropWhile_append1)
  from pre have "prefix ''=== PAGE '' (s @ q)"
    by (rule prefix_prefix)
  moreover from len have "drop 9 (s @ q) = r @ q"
    by (simp add: r_def)
  moreover from rest have "prefix '' ==='' (dropWhile is_digit r @ q)"
    by (rule prefix_prefix)
  ultimately show ?thesis
    using ds tw dw by (simp add: marker_at_def Let_def del: prefix_code)
qed

lemma page_match_append_right: "page_match x \<noteq> None \<Longrightarrow> page_match (x @ q) \<noteq> None"
proof (induction x)
  case Nil
  then show ?case by simp
next
  case (Cons c x)
  show ?case
  proof (cases "marker_at (c # x)")
    case None
    with Cons show ?thesis
      by (auto split: option.splits)
  next
    case (Some ds)
    from marker_at_append [OF this, of q] show ?thesis
      by simp
  qed
qed

lemma page_match_append_left: "page_match x \<noteq> None \<Longrightarrow> page_match (p @ x) \<noteq> None"
  by (induction p) (auto split: option.splits)

lemma page_match_sublist:
  assumes "sublist x y" and "page_match y = None"
  shows "page_match x = None"
proof (rule ccontr)
  assume "page_match x \<noteq> None"
  from assms(1) obtain p q where "y = p @ x @ q"
    by (auto simp: sublist_def)
  with \<open>page_match x \<noteq> None\<close> have "page_match y \<noteq> None"
    by (simp add: page_match_append_left page_match_append_right)
  with assms(2) show False by simp
qed

text \<open>
  Both loops return the content they were given followed by whole lines of the text,
  none of which is a page marker.
\<close>

lemma anchor_pass_lines:
  "\<exists>ls. anchor_pass sec nextSection lines capturing p acc = acc @ unlines ls
        \<and> set ls \<subseteq> {l \<in> set lines. page_match l = None}"
proof (induction lines arbitrary: capturing p acc)
  case Nil
  have "anchor_pass sec nextSection [] capturing p acc = acc @ unlines []"
    by (simp add: unlines_def)
  then show ?case by fastforce
next
  case (Cons line lines)
  have keep: "\<exists>ls. acc = acc @ unlines ls
                \<and> set ls \<subseteq> {l \<in> set (line # lines). page_match l = None}"
    by (rule exI [of _ "[]"]) (simp add: unlines_def)
  show ?case
  proof (cases "page_match line")
    case (Some ds)
    from Cons [of capturing "parseInt ds" acc] Some show ?thesis
      by auto
  next
    case None
    from Cons [of True p "acc @ line @ [nl]"]
    obtain ls where ls: "anchor_pass sec nextSection lines True p (acc @ line @ [nl])
                         = (acc @ line @ [nl]) @ unlines ls"
      "set ls \<subseteq> {l \<in> set lines. page_match l = None}"
      by blast
    have take: "\<exists>ls'. anchor_pass sec nextSection lines True p (acc @ line @ [nl])
                      = acc @ unlines ls'
                  \<and> set ls' \<subseteq> {l \<in> set (line # lines). page_match l = None}"
      using ls None by (intro exI [of _ "line # ls"]) (auto simp: unlines_def)
    from Cons [of False p acc]
    have skip: "\<exists>ls'. anchor_pass sec nextSection lines False p acc = acc @ unlines ls'
                  \<and> set ls' \<subseteq> {l \<in> set (line # lines). page_match l = None}"
      by auto
    from None keep take skip show ?thesis
      by (simp add: Let_def)
  qed
qed

lemma page_pass_lines:
  "\<exists>ls. page_pass sec lines capturing p acc = acc @ unlines ls
        \<and> set ls \<subseteq> {l \<in> set lines. page_match l = None}"
proof (induction lines arbitrary: capturing p acc)
  case Nil
  have "page_pass sec [] capturing p acc = acc @ unlines []"
    by (simp add: unlines_def)
  then show ?case by fastforce
next
  case (Cons line lines)
  have keep: "\<exists>ls. acc = acc @ unlines ls
                \<and> set ls \<subseteq> {l \<in> set (line # lines). page_match l = None}"
    by (rule exI [of _ "[]"]) (simp add: unlines_def)
  show ?case
  proof (cases "page_match line")
    case (Some ds)
    from Cons [of capturing "parseInt ds" acc] Some show ?thesis
      by auto
  next
    case None
    from Cons [of True p "acc @ line @ [nl]"]
    obtain ls where ls: "page_pass sec lines True p (acc @ line @ [nl])
                         = (acc @ line @ [nl]) @ unlines ls"
      "set ls \<subseteq> {l \<in> set lines. page_match l = None}"
      by blast
    have take: "\<exists>ls'. page_pass sec lines True p (acc @ line @ [nl]) = acc @ unlines ls'
                  \<and> set ls' \<subseteq> {l \<in> set (line # lines). page_match l = None}"
      using ls None by (intro exI [of _ "line # ls"]) (auto simp: unlines_def)
    from Cons [of False p acc]
    have skip: "\<exists>ls'. page_pass sec lines False p acc = acc @ unlines ls'
                  \<and> set ls' \<subseteq> {l \<in> set (line # lines). page_match l = None}"
      by auto
    from None keep take skip show ?thesis
      by (simp add: Let_def)
  qed
qed

lemma trim_unlines_no_marker:
  assumes "set ls \<subseteq> {l \<in> set (split_nl T). page_match l = None}"
    and "l \<in> set (split_nl (trim (unlines ls)))"
  shows "page_match l = None"
proof -
  obtain a b where "unlines ls = a @ trim (unlines ls) @ b"
    using trim_piece by blast
  with split_nl_piece [OF assms(2), of a b]
  obtain l' where l': "l' \<in> set (split_nl (unlines ls))" "sublist l l'"
    by auto
  from assms(1) have "\<forall>l \<in> set ls. nl \<notin> set l"
    by (auto dest: split_nl_no_nl)
  then have "split_nl (unlines ls) = ls @ [[]]"
    by (rule split_nl_unlines)
  with l'(1) assms(1) have "page_match l' = None"
    by auto
  with l'(2) show ?thesis
    by (rule page_match_sublist)
qed

text \<open>
  C10. For every document text, section and optional next section, no line of the
  string that \<open>extractSectionContent\<close> returns matches the page-marker pattern
  \<open>=== PAGE n ===\<close>.
\<close>

theorem extract_has_no_page_marker:
  "\<forall>l \<in> set (split_nl (extractSectionContent T sec nextSection)). page_match l = None"
proof
  fix l
  assume l: "l \<in> set (split_nl (extractSectionContent T sec nextSection))"
  from anchor_pass_lines [of sec nextSection "split_nl T" False "Num 1" "[]"]
  obtain ls1 where ls1: "anchor_pass sec nextSection (split_nl T) False (Num 1) [] = unlines ls1"
    "set ls1 \<subseteq> {l \<in> set (split_nl T). page_match l = None}"
    by auto
  from page_pass_lines [of sec "split_nl T" False "Num 1" "[]"]
  obtain ls2 where ls2: "page_pass sec (split_nl T) False (Num 1) [] = unlines ls2"
    "set ls2 \<subseteq> {l \<in> set (split_nl T). page_match l = None}"
    by auto
  from l ls1(1) ls2(1)
  have "l \<in> set (split_nl (trim (unlines ls1))) \<or> l \<in> set (split_nl (trim (unlines ls2)))"
    by (auto simp: extractSectionContent_def Let_def split: if_splits)
  with ls1(2) ls2(2) show "page_match l = None"
    by (auto dest: trim_unlines_no_marker)
qed

lemma marker_at_digits: "marker_at s = Some ds \<Longrightarrow> ds \<noteq> [] \<and> (\<forall>c \<in> set ds. is_digit c)"
  by (auto simp: marker_at_def Let_def split: if_splits dest: set_takeWhileD)

lemma page_match_digits: "page_match l = Some ds \<Longrightarrow> ds \<noteq> [] \<and> (\<forall>c \<in> set ds. is_digit c)"
proof (induction l)
  case Nil
  then show ?case by simp
next
  case (Cons c l)
  then show ?case
    by (cases "marker_at (c # l)") (auto dest: marker_at_digits)
qed

lemma is_digit_plain:
  "is_digit c \<Longrightarrow> \<not> is_ws c \<and> c \<noteq> CHR ''-'' \<and> c \<noteq> CHR ''+''"
  by (auto simp: is_digit_def is_ws_def)

lemma not_digit_x: "\<not> is_digit (CHR ''x'')" "\<not> is_digit (CHR ''X'')"
  by (simp_all add: is_digit_def)

lemma to_number_safe: "0 \<le> z \<Longrightarrow> z \<le> max_safe \<Longrightarrow> to_number z = Num z"
  by (simp add: to_number_def round_to_double_def max_safe_def)

lemma foldl_digits_nonneg:
  "0 \<le> r \<Longrightarrow> 0 \<le> n \<Longrightarrow> 0 \<le> foldl (\<lambda>n c. r * n + int (digit_value c)) n ds"
  by (induction ds arbitrary: n) simp_all

lemma digits_value_nonneg: "0 \<le> digits_value 10 ds"
  unfolding digits_value_def by (rule foldl_digits_nonneg) simp_all

lemma parseInt_digits:
  assumes "ds \<noteq> []" and "\<forall>c \<in> set ds. is_digit c"
    and safe: "digits_value 10 ds \<le> max_safe"
  shows "parseInt ds = Num (digits_value 10 ds)"
proof -
  from assms obtain c cs where ds: "ds = c # cs"
    by (cases ds) auto
  with assms(2) have c: "\<not> is_ws c" "c \<noteq> CHR ''-''" "c \<noteq> CHR ''+''"
    by (simp_all add: is_digit_plain)
  have "\<not> prefix ''0x'' ds"
  proof
    assume "prefix ''0x'' ds"
    then have "CHR ''x'' \<in> set ds"
      by (auto simp: prefix_def)
    with assms(2) not_digit_x show False
      by blast
  qed
  moreover have "\<not> prefix ''0X'' ds"
  proof
    assume "prefix ''0X'' ds"
    then have "CHR ''X'' \<in> set ds"
      by (auto simp: prefix_def)
    with assms(2) not_digit_x show False
      by blast
  qed
  moreover have "takeWhile is_digit ds = ds"
    using assms(2) by (simp add: takeWhile_eq_all_conv)
  ultimately have pd: "parse_digits ds = Some (digits_value 10 ds)"
    using assms(1) unfolding parse_digits_def by (simp only: Let_def if_False simp_thms)
  have "dropWhile is_ws ds = ds"
    using c ds by simp
  then have "parseInt ds = (case parse_digits ds of None \<Rightarrow> NaN | Some n \<Rightarrow> to_number n)"
    unfolding parseInt_def Let_def using c ds by (simp only: list.case if_False)
  with pd have "parseInt ds = to_number (digits_value 10 ds)"
    by simp
  with to_number_safe [OF digits_value_nonneg safe] show ?thesis
    by simp
qed

lemma page_match_number:
  "page_match l = Some ds \<Longrightarrow> digits_value 10 ds \<le> max_safe \<Longrightarrow>
   parseInt ds = Num (digits_value 10 ds)"
  using page_match_digits [of l ds] parseInt_digits [of ds] by blast

lemma split_nl_line_sublist: "l \<in> set (split_nl T) \<Longrightarrow> sublist l T"
proof -
  assume l: "l \<in> set (split_nl T)"
  show ?thesis
    using l
  proof (induction T arbitrary: l)
    case Nil
    then show ?case by simp
  next
    case (Cons c T)
    obtain l0 ls0 where sp: "split_nl T = l0 # ls0"
      by (cases "split_nl T") auto
    show ?case
    proof (cases "c = nl")
      case True
      with Cons.prems have "l = [] \<or> l \<in> set (split_nl T)"
        by simp
      with Cons.IH show ?thesis
        by (auto simp: sublist_Cons_right)
    next
      case False
      with Cons.prems sp have "l = c # l0 \<or> l \<in> set ls0"
        by simp
      then show ?thesis
      proof
        assume l: "l = c # l0"
        have "prefix l0 T"
          using sp
        proof (induction T arbitrary: l0 ls0)
          case Nil
          then show ?case by simp
        next
          case (Cons d T)
          obtain e0 es0 where "split_nl T = e0 # es0"
            by (cases "split_nl T") auto
          with Cons show ?case
            by (auto split: if_splits)
        qed
        with l show ?thesis
          by (simp add: sublist_Cons_right)
      next
        assume "l \<in> set ls0"
        with sp Cons.IH [of l] show ?thesis
          by (simp add: sublist_Cons_right)
      qed
    qed
  qed
qed

lemma no_anchor_in_lines:
  assumes "\<not> str_includes (toLowerCase T) (toLowerCase a)" and "l \<in> set (split_nl T)"
  shows "\<not> str_includes (toLowerCase l) (toLowerCase a)"
proof
  assume "str_includes (toLowerCase l) (toLowerCase a)"
  then have "sublist (toLowerCase a) (toLowerCase l)"
    by (simp add: str_includes_sublist)
  moreover have "sublist (toLowerCase l) (toLowerCase T)"
    using split_nl_line_sublist [OF assms(2)] by (simp add: toLowerCase_def map_mono_sublist)
  ultimately have "sublist (toLowerCase a) (toLowerCase T)"
    by (rule sublist_order.order_trans)
  with assms(1) show False
    by (simp add: str_includes_sublist)
qed

lemma anchor_pass_no_anchor:
  "\<forall>l \<in> set lines. \<not> anchor_match sec l \<Longrightarrow>
   anchor_pass sec nextSection lines False p acc = acc"
  by (induction lines arbitrary: p) (auto split: option.splits)

lemma pages_between_past:
  "b < p \<Longrightarrow> sorted (p # marker_numbers lines) \<Longrightarrow> pages_between a b p lines = []"
proof (induction lines arbitrary: p)
  case Nil
  then show ?case by simp
next
  case (Cons line lines)
  show ?case
  proof (cases "page_match line")
    case None
    with Cons show ?thesis
      by simp
  next
    case (Some ds)
    define n where "n = digits_value 10 ds"
    with Some Cons.prems have "b < n" "sorted (n # marker_numbers lines)"
      by auto
    with Cons.IH [of n] Some show ?thesis
      by (simp add: n_def)
  qed
qed

text \<open>
  While the page markers do not decrease and are numbers that \<open>parseInt\<close> reads
  exactly, the fallback loop collects the lines of the pages in the range.
\<close>

lemma page_pass_sorted:
  assumes "sorted (p # marker_numbers lines)"
    and "\<forall>n \<in> set (marker_numbers lines). n \<le> max_safe"
    and "capturing \<longrightarrow> start_page sec \<le> p"
  shows "page_pass sec lines capturing (Num p) acc
         = acc @ unlines (pages_between (start_page sec) (end_page sec) p lines)"
  using assms
proof (induction lines arbitrary: p capturing acc)
  case Nil
  then show ?case by (simp add: unlines_def)
next
  case (Cons line lines)
  show ?case
  proof (cases "page_match line")
    case (Some ds)
    define n where "n = digits_value 10 ds"
    from Some Cons.prems(2) have "n \<le> max_safe"
      by (simp add: n_def)
    with Some have pi: "parseInt ds = Num n"
      by (simp add: n_def page_match_number)
    from Some Cons.prems have "p \<le> n" "sorted (n # marker_numbers lines)"
      and safe: "\<forall>n \<in> set (marker_numbers lines). n \<le> max_safe"
      by (auto simp: n_def)
    with Cons.prems(3) have "capturing \<longrightarrow> start_page sec \<le> n"
      by auto
    from Cons.IH [OF \<open>sorted (n # marker_numbers lines)\<close> safe this] Some pi show ?thesis
      by (simp add: n_def)
  next
    case None
    with Cons.prems have srt: "sorted (p # marker_numbers lines)"
      and safe: "\<forall>n \<in> set (marker_numbers lines). n \<le> max_safe"
      by simp_all
    show ?thesis
    proof (cases "start_page sec \<le> p")
      case False
      with Cons.prems(3) have nc: "\<not> capturing"
        by auto
      from Cons.IH [OF srt safe, of False acc] None False nc show ?thesis
        by (simp add: page_ge_def)
    next
      case True
      show ?thesis
      proof (cases "end_page sec < p")
        case past: True
        from pages_between_past [OF past srt]
        have "pages_between (start_page sec) (end_page sec) p lines = []" .
        with None True past show ?thesis
          by (simp add: page_ge_def page_gt_def unlines_def)
      next
        case False
        from Cons.IH [OF srt safe, of True "acc @ line @ [nl]"] True
        have "page_pass sec lines True (Num p) (acc @ line @ [nl])
              = (acc @ line @ [nl])
                @ unlines (pages_between (start_page sec) (end_page sec) p lines)"
          by simp
        with None True False show ?thesis
          by (simp add: page_ge_def page_gt_def unlines_def)
      qed
    qed
  qed
qed

text \<open>
  Under the same conditions the first loop, once it captures, collects the lines of
  the pages up to the end page, and stops before the first line that passes the
  anchor test of the next section.
\<close>

lemma stop_at_Nil: "stop_at nextSection [] = []"
  by (simp add: stop_at_def split: option.splits)

lemma stop_at_Cons:
  "stop_at nextSection (l # ls)
   = (if (case nextSection of None \<Rightarrow> False | Some ns \<Rightarrow> anchor_match ns l) then []
      else l # stop_at nextSection ls)"
  by (simp add: stop_at_def split: option.splits)

lemma anchor_pass_sorted:
  assumes "sorted (p # marker_numbers lines)"
    and "\<forall>n \<in> set (marker_numbers lines). n \<le> max_safe"
    and "start_page sec \<le> p"
  shows "anchor_pass sec nextSection lines True (Num p) acc
         = acc @ unlines (stop_at nextSection
                            (pages_between (start_page sec) (end_page sec) p lines))"
  using assms
proof (induction lines arbitrary: p acc)
  case Nil
  then show ?case by (simp add: unlines_def stop_at_Nil)
next
  case (Cons line lines)
  show ?case
  proof (cases "page_match line")
    case (Some ds)
    define n where "n = digits_value 10 ds"
    from Some Cons.prems(2) have "n \<le> max_safe"
      by (simp add: n_def)
    with Some have pi: "parseInt ds = Num n"
      by (simp add: n_def page_match_number)
    from Some Cons.prems have "p \<le> n" "sorted (n # marker_numbers lines)"
      and safe: "\<forall>n \<in> set (marker_numbers lines). n \<le> max_safe"
      by (auto simp: n_def)
    with Cons.prems(3) have "start_page sec \<le> n"
      by auto
    from Cons.IH [OF \<open>sorted (n # marker_numbers lines)\<close> safe this] Some pi show ?thesis
      by (simp add: n_def)
  next
    case None
    with Cons.prems have srt: "sorted (p # marker_numbers lines)"
      and safe: "\<forall>n \<in> set (marker_numbers lines). n \<le> max_safe"
      by simp_all
    note start = Cons.prems(3)
    show ?thesis
    proof (cases "end_page sec < p")
      case past: True
      from pages_between_past [OF past srt]
      have "pages_between (start_page sec) (end_page sec) p lines = []" .
      with None start past show ?thesis
        by (simp add: page_gt_def unlines_def stop_at_Nil)
    next
      case False
      show ?thesis
      proof (cases "case nextSection of None \<Rightarrow> False | Some ns \<Rightarrow> anchor_match ns line")
        case True
        with None start False show ?thesis
          by (simp add: page_gt_def unlines_def stop_at_Cons)
      next
        case no_next: False
        from Cons.IH [OF srt safe start, of "acc @ line @ [nl]"]
        have "anchor_pass sec nextSection lines True (Num p) (acc @ line @ [nl])
              = (acc @ line @ [nl])
                @ unlines (stop_at nextSection
                             (pages_between (start_page sec) (end_page sec) p lines))" .
        with None start False no_next show ?thesis
          by (simp add: page_gt_def unlines_def stop_at_Cons)
      qed
    qed
  qed
qed
lemma extract_without_anchor:
  assumes "\<not> str_includes (toLowerCase T) (toLowerCase (title sec))"
    and "\<forall>st. start_text sec = Some st \<longrightarrow>
           st = [] \<or> \<not> str_includes (toLowerCase T) (toLowerCase st)"
  shows "extractSectionContent T sec nextSection = trim (page_pass sec (split_nl T) False (Num 1) [])"
proof -
  have "\<forall>l \<in> set (split_nl T). \<not> anchor_match sec l"
  proof
    fix l
    assume l: "l \<in> set (split_nl T)"
    from assms(1) l have "\<not> str_includes (toLowerCase l) (toLowerCase (title sec))"
      by (rule no_anchor_in_lines)
    moreover have "\<not> str_includes (toLowerCase l) (toLowerCase st)"
      if "start_text sec = Some st" "st \<noteq> []" for st
      using assms(2) that no_anchor_in_lines [OF _ l, of st] by blast
    ultimately show "\<not> anchor_match sec l"
      by (auto simp: anchor_match_def split: option.splits)
  qed
  then have "anchor_pass sec nextSection (split_nl T) False (Num 1) [] = []"
    by (rule anchor_pass_no_anchor)
  then show ?thesis
    by (simp add: extractSectionContent_def trim_def)
qed

lemma anchor_pass_skip_block:
  "\<forall>l \<in> set ls. page_match l = None \<Longrightarrow> \<not> page_ge p (start_page sec) \<Longrightarrow>
   anchor_pass sec nextSection (ls @ rest) False p acc = anchor_pass sec nextSection rest False p acc"
  by (induction ls) auto

lemma anchor_pass_skip_unmatched:
  "\<forall>l \<in> set ls. page_match l = None \<and> \<not> anchor_match sec l \<Longrightarrow>
   anchor_pass sec nextSection (ls @ rest) False p acc = anchor_pass sec nextSection rest False p acc"
  by (induction ls) auto

lemma pages_between_block:
  "\<forall>l \<in> set ls. page_match l = None \<Longrightarrow>
   pages_between a b p (ls @ rest)
   = (if a \<le> p \<and> p \<le> b then ls else []) @ pages_between a b p rest"
  by (induction ls) auto

lemma marker_numbers_block:
  "\<forall>l \<in> set ls. page_match l = None \<Longrightarrow> marker_numbers (ls @ rest) = marker_numbers rest"
  by (induction ls) auto

lemma marker_numbers_plain: "\<forall>l \<in> set ls. page_match l = None \<Longrightarrow> marker_numbers ls = []"
  by (induction ls) auto

lemma marker_lines:
  "page_match ''=== PAGE 1 ==='' = Some ''1''" "parseInt ''1'' = Num 1"
  "page_match ''=== PAGE 2 ==='' = Some ''2''" "parseInt ''2'' = Num 2"
  "page_match ''=== PAGE 3 ==='' = Some ''3''" "parseInt ''3'' = Num 3"
  "page_match ''=== PAGE 4 ==='' = Some ''4''" "parseInt ''4'' = Num 4"
  "page_match ''=== PAGE 5 ==='' = Some ''5''" "parseInt ''5'' = Num 5"
  by code_simp+

lemma marker_values:
  "digits_value 10 ''1'' = 1" "digits_value 10 ''2'' = 2" "digits_value 10 ''3'' = 3"
  "digits_value 10 ''4'' = 4" "digits_value 10 ''5'' = 5"
  by code_simp+

lemma marker_lines_no_nl:
  "nl \<notin> set ''=== PAGE 1 ===''" "nl \<notin> set ''=== PAGE 2 ===''" "nl \<notin> set ''=== PAGE 3 ===''"
  "nl \<notin> set ''=== PAGE 4 ===''" "nl \<notin> set ''=== PAGE 5 ===''"
  by (simp_all add: nl_def)

lemma is_ws_lower_char: "is_ws (lower_char c) \<longleftrightarrow> is_ws c"
proof (cases "(65 \<le> (of_char c :: nat) \<and> (of_char c :: nat) \<le> 90)
              \<or> (192 \<le> (of_char c :: nat) \<and> (of_char c :: nat) \<le> 222 \<and> (of_char c :: nat) \<noteq> 215)")
  case False
  then have "lower_char c = c"
    unfolding lower_char_def Let_def by (simp only: if_False)
  then show ?thesis by simp
next
  case True
  define n where "n = (of_char c :: nat)"
  from True have range: "(65 \<le> n \<and> n \<le> 90) \<or> (192 \<le> n \<and> n \<le> 222)"
    unfolding n_def by blast
  from True have "lower_char c = char_of (n + 32)"
    unfolding lower_char_def Let_def n_def by (simp only: if_True)
  moreover have "(of_char (char_of (n + 32)) :: nat) = (n + 32) mod 256"
    by simp
  moreover from range have "(n + 32) mod 256 = n + 32"
    by auto
  ultimately have low: "(of_char (lower_char c) :: nat) = n + 32"
    by simp
  from range have "n + 32 \<notin> {9, 10, 11, 12, 13, 32, 160}" "n \<notin> {9, 10, 11, 12, 13, 32, 160}"
    by auto
  then show ?thesis
    unfolding is_ws_def low n_def [symmetric] by simp
qed

lemma anchor_line_nonblank:
  assumes "str_includes (toLowerCase l) (toLowerCase X)" and "\<exists>c \<in> set X. \<not> is_ws c"
  shows "\<exists>c \<in> set l. \<not> is_ws c"
proof -
  from assms(2) obtain c where c: "c \<in> set X" "\<not> is_ws c"
    by blast
  from assms(1) have "set (toLowerCase X) \<subseteq> set (toLowerCase l)"
    by (simp add: str_includes_sublist set_mono_sublist)
  with c(1) have "lower_char c \<in> lower_char ` set l"
    by (auto simp: toLowerCase_def)
  then obtain d where "d \<in> set l" "lower_char d = lower_char c"
    by auto
  with c(2) show ?thesis
    by (metis is_ws_lower_char)
qed

text \<open>
  C10, at the five-page text: the line \<open>third\<close> is a line of the extracted
  content, and it is not a marker.
\<close>

theorem extract_has_no_page_marker_witness:
  "''third'' \<in> set (split_nl (extractSectionContent five_pages section_X None))
   \<and> page_match ''third'' = None"
  using extract_has_no_page_marker [of five_pages section_X None]
  by code_simp

text \<open>
  A marker above \<open>2^53 - 1\<close> is read as the nearest double: \<open>2^53 + 1\<close> is read
  as \<open>2^53\<close>, so in the text with these two markers the lines of both pages are
  taken for the page \<open>2^53\<close>, of which the text is the line \<open>a\<close> alone.
\<close>

lemma markers_beyond_safe:
  "parseInt ''9007199254740993'' = Num 9007199254740992
   \<and> marker_numbers (split_nl pages_beyond_safe) = [9007199254740992, 9007199254740993]
   \<and> extractSectionContent pages_beyond_safe section_beyond_safe None = ''a\<newline>b''
   \<and> trim (unlines (pages_between 9007199254740992 9007199254740992 1
               (split_nl pages_beyond_safe))) = ''a''"
  by code_simp

text \<open>
  C7 (as stated, refuted). In the text whose markers read 3 and then 1, the title
  \<open>Q\<close> occurs nowhere, so the fallback runs. It starts at the first line of page 3
  and never sees a page above 4, so it also returns the line \<open>b\<close> of page 1: the
  result is not the text of pages 2 to 4, which is the line \<open>a\<close> alone.
\<close>

theorem fallback_pages_counterexample:
  "\<not> str_includes (toLowerCase pages_3_then_1) (toLowerCase (title section_Q))
   \<and> start_text section_Q = None
   \<and> extractSectionContent pages_3_then_1 section_Q None = ''a\<newline>b''
   \<and> trim (unlines (pages_between 2 4 1 (split_nl pages_3_then_1))) = ''a''"
  by code_simp

text \<open>
  C7 (amended). For every document text whose page markers never decrease (the text
  before the first marker counting as page 1) and carry numbers of at most
  \<open>2^53 - 1\<close>, which a number holds exactly, and every section whose title and
  \<open>start_text\<close> occur nowhere in the text and whose page numbers are within the same
  bound, with or without a next section, \<open>extractSectionContent\<close> returns the trimmed
  text of the lines of pages \<open>start_page\<close> to \<open>end_page\<close> inclusive.
\<close>

theorem fallback_returns_pages:
  assumes "\<not> str_includes (toLowerCase T) (toLowerCase (title sec))"
    and "\<forall>st. start_text sec = Some st \<longrightarrow>
           st = [] \<or> \<not> str_includes (toLowerCase T) (toLowerCase st)"
    and "sorted (1 # marker_numbers (split_nl T))"
    and "\<forall>n \<in> set (marker_numbers (split_nl T)). n \<le> max_safe"
    and "- max_safe \<le> start_page sec \<and> start_page sec \<le> max_safe"
    and "- max_safe \<le> end_page sec \<and> end_page sec \<le> max_safe"
  shows "extractSectionContent T sec nextSection
         = trim (unlines (pages_between (start_page sec) (end_page sec) 1 (split_nl T)))"
proof -
  from assms(1,2)
  have "extractSectionContent T sec nextSection
        = trim (page_pass sec (split_nl T) False (Num 1) [])"
    by (rule extract_without_anchor)
  moreover from assms(3,4)
  have "page_pass sec (split_nl T) False (Num 1) []
        = [] @ unlines (pages_between (start_page sec) (end_page sec) 1 (split_nl T))"
    by (rule page_pass_sorted) simp
  ultimately show ?thesis
    by simp
qed

theorem fallback_returns_pages_witness:
  "\<not> str_includes (toLowerCase five_pages) (toLowerCase (title section_Q))
   \<and> start_text section_Q = None
   \<and> sorted (1 # marker_numbers (split_nl five_pages))
   \<and> marker_numbers (split_nl five_pages) = [1, 2, 3, 4, 5]
   \<and> extractSectionContent five_pages section_Q None
       = ''before\<newline>The X files\<newline>more\<newline>third\<newline>fourth''"
proof -
  have a: "\<not> str_includes (toLowerCase five_pages) (toLowerCase (title section_Q))"
    by code_simp
  have b: "\<forall>st. start_text section_Q = Some st \<longrightarrow>
             st = [] \<or> \<not> str_includes (toLowerCase five_pages) (toLowerCase st)"
    by (simp add: section_Q_def)
  have m: "marker_numbers (split_nl five_pages) = [1, 2, 3, 4, 5]"
    by code_simp
  have c: "sorted (1 # marker_numbers (split_nl five_pages))"
    by (simp add: m)
  have d: "\<forall>n \<in> set (marker_numbers (split_nl five_pages)). n \<le> max_safe"
    by (simp add: m max_safe_def)
  have e: "- max_safe \<le> start_page section_Q \<and> start_page section_Q \<le> max_safe"
    "- max_safe \<le> end_page section_Q \<and> end_page section_Q \<le> max_safe"
    by (simp_all add: section_Q_def max_safe_def)
  have "trim (unlines (pages_between (start_page section_Q) (end_page section_Q) 1
                (split_nl five_pages)))
        = ''before\<newline>The X files\<newline>more\<newline>third\<newline>fourth''"
    by code_simp
  with fallback_returns_pages [OF a b c d e, of None] a c m show ?thesis
    by (simp add: section_Q_def)
qed

text \<open>
  C6 (as stated, refuted). The title \<open>X\<close> appears verbatim on page 2 in the line
  \<open>The X files\<close> only. In the first text the line before it, \<open>extra\<close>, contains
  the title in another case, and the extracted content begins with that line. In the
  second text, extracted with a next section whose title \<open>the x\<close> is contained in
  the heading line, the first loop stops on the heading line with nothing collected, the
  fallback by pages runs, and the content begins with the line \<open>before\<close>. In both
  the content has a line that precedes the line where the title appears.
\<close>

theorem anchor_extraction_counterexample:
  "str_includes ''The X files'' (title section_X)
   \<and> \<not> str_includes ''extra'' (title section_X)
   \<and> \<not> str_includes ''before'' (title section_X)
   \<and> extractSectionContent five_pages_extra section_X None
       = ''extra\<newline>The X files\<newline>more\<newline>third\<newline>fourth''
   \<and> extractSectionContent five_pages section_X (Some section_the_x)
       = ''before\<newline>The X files\<newline>more\<newline>third\<newline>fourth''"
  by code_simp

text \<open>
  C6 (amended). The document text has the page markers 1 to 5, each followed by the
  lines of its page (\<open>p1\<close> to \<open>p5\<close>, none of them a marker); the section is
  \<open>{start_page: 2, end_page: 4, title: X}\<close> and \<open>X\<close>, which is not blank, occurs
  verbatim in a line of page 2. The heading line is the first line of page 2 that
  contains the title as the extractor compares, without regard to case. If no next
  section is passed, or the next section does not pass its anchor test on the heading
  line, then the extracted content is made of the lines of page 2 from the heading line
  and of the lines of pages 3 and 4, up to the first of them that passes the anchor test
  of the next section: every line before the heading line and every line after the page
  has passed 4 is left out.
\<close>

theorem anchor_extraction_brackets_section:
  assumes plain: "\<forall>l \<in> set (p1 @ p2 @ p3 @ p4 @ p5). page_match l = None \<and> nl \<notin> set l"
    and verbatim: "\<exists>l \<in> set p2. str_includes l X"
    and nonblank: "\<exists>c \<in> set X. \<not> is_ws c"
    and next_later: "\<forall>ns. nextSection = Some ns \<longrightarrow>
           \<not> anchor_match ns
               (hd (dropWhile (\<lambda>l. \<not> str_includes (toLowerCase l) (toLowerCase X)) p2))"
  shows "extractSectionContent
           (join_nl (''=== PAGE 1 ==='' # p1 @ ''=== PAGE 2 ==='' # p2 @ ''=== PAGE 3 ==='' # p3
                     @ ''=== PAGE 4 ==='' # p4 @ ''=== PAGE 5 ==='' # p5))
           \<lparr>title = X, start_page = 2, end_page = 4, start_text = None, end_text = et\<rparr>
           nextSection
         = trim (unlines (stop_at nextSection
                   (dropWhile (\<lambda>l. \<not> str_includes (toLowerCase l) (toLowerCase X)) p2
                    @ p3 @ p4)))"
proof -
  define m1 m2 m3 m4 m5 where m_defs:
    "m1 = ''=== PAGE 1 ===''" "m2 = ''=== PAGE 2 ===''" "m3 = ''=== PAGE 3 ===''"
    "m4 = ''=== PAGE 4 ===''" "m5 = ''=== PAGE 5 ===''"
  have m: "page_match m1 = Some ''1''" "page_match m2 = Some ''2''" "page_match m3 = Some ''3''"
    "page_match m4 = Some ''4''" "page_match m5 = Some ''5''"
    "nl \<notin> set m1" "nl \<notin> set m2" "nl \<notin> set m3" "nl \<notin> set m4" "nl \<notin> set m5"
    unfolding m_defs by (rule marker_lines marker_lines_no_nl)+
  note n = marker_lines(2,4,6,8,10)
  note v = marker_values
  define sec where
    "sec = \<lparr>title = X, start_page = 2, end_page = 4, start_text = None, end_text = et\<rparr>"
  have sec: "start_page sec = 2" "end_page sec = 4"
    by (simp_all add: sec_def)
  define before where
    "before = takeWhile (\<lambda>l. \<not> str_includes (toLowerCase l) (toLowerCase X)) p2"
  define from_title where
    "from_title = dropWhile (\<lambda>l. \<not> str_includes (toLowerCase l) (toLowerCase X)) p2"
  define tail where "tail = m3 # p3 @ m4 # p4 @ m5 # p5"
  define lines where "lines = m1 # p1 @ m2 # p2 @ tail"
  have anchor: "anchor_match sec l \<longleftrightarrow> str_includes (toLowerCase l) (toLowerCase X)" for l
    by (simp add: anchor_match_def sec_def)
  have p2: "p2 = before @ from_title"
    by (simp add: before_def from_title_def)
  from verbatim have "\<exists>l \<in> set p2. str_includes (toLowerCase l) (toLowerCase X)"
    by (auto dest: str_includes_toLowerCase)
  then have "from_title \<noteq> []"
    by (auto simp: from_title_def dropWhile_eq_Nil_conv)
  then obtain tl rest where ft: "from_title = tl # rest"
    by (cases from_title) auto
  then have tl: "str_includes (toLowerCase tl) (toLowerCase X)"
    using hd_dropWhile [of "\<lambda>l. \<not> str_includes (toLowerCase l) (toLowerCase X)" p2]
    by (simp add: from_title_def)
  from next_later ft
  have no_next: "\<not> (case nextSection of None \<Rightarrow> False | Some ns \<Rightarrow> anchor_match ns tl)"
    by (simp add: from_title_def [symmetric] split: option.splits)
  have before: "\<forall>l \<in> set before. page_match l = None \<and> \<not> anchor_match sec l"
  proof
    fix l
    assume "l \<in> set before"
    then have "l \<in> set p2 \<and> \<not> str_includes (toLowerCase l) (toLowerCase X)"
      unfolding before_def by (rule set_takeWhileD)
    with plain show "page_match l = None \<and> \<not> anchor_match sec l"
      by (simp add: anchor)
  qed
  have "set from_title \<subseteq> set p2"
    unfolding from_title_def by (rule set_dropWhileD [THEN subsetI])
  then have in_p2: "tl \<in> set p2" "set rest \<subseteq> set p2"
    by (auto simp: ft)
  have plain': "\<forall>l \<in> set p1. page_match l = None" "\<forall>l \<in> set rest. page_match l = None"
    "\<forall>l \<in> set p3. page_match l = None" "\<forall>l \<in> set p4. page_match l = None"
    "\<forall>l \<in> set p5. page_match l = None" "page_match tl = None"
    using plain in_p2 by auto
  have "lines \<noteq> []" "\<forall>l \<in> set lines. nl \<notin> set l"
    using plain m(6-10) by (auto simp: lines_def tail_def)
  then have split: "split_nl (join_nl lines) = lines"
    by (rule split_nl_join_nl)
  have "anchor_pass sec nextSection lines False (Num 1) []
        = anchor_pass sec nextSection (p1 @ m2 # p2 @ tail) False (Num 1) []"
    by (simp add: lines_def m n)
  also have "\<dots> = anchor_pass sec nextSection (m2 # p2 @ tail) False (Num 1) []"
    by (rule anchor_pass_skip_block) (simp_all add: plain' sec page_ge_def)
  also have "\<dots> = anchor_pass sec nextSection (before @ tl # rest @ tail) False (Num 2) []"
    by (simp add: m n p2 ft)
  also have "\<dots> = anchor_pass sec nextSection (tl # rest @ tail) False (Num 2) []"
    using before by (rule anchor_pass_skip_unmatched)
  also have "\<dots> = anchor_pass sec nextSection (rest @ tail) True (Num 2) (tl @ [nl])"
    using tl no_next by (simp add: plain' anchor page_ge_def page_gt_def sec)
  also have "\<dots> = (tl @ [nl])
                   @ unlines (stop_at nextSection
                                (pages_between (start_page sec) (end_page sec) 2 (rest @ tail)))"
  proof (rule anchor_pass_sorted)
    have mn: "marker_numbers (rest @ tail) = [3, 4, 5]"
      by (simp add: marker_numbers_block marker_numbers_plain plain' tail_def m v)
    then show "sorted (2 # marker_numbers (rest @ tail))"
      by simp
    from mn show "\<forall>n \<in> set (marker_numbers (rest @ tail)). n \<le> max_safe"
      by (simp add: max_safe_def)
    show "start_page sec \<le> 2"
      by (simp add: sec)
  qed
  also have "pages_between (start_page sec) (end_page sec) 2 (rest @ tail) = rest @ p3 @ p4"
  proof -
    have "pages_between 2 4 5 p5 = []"
      using pages_between_block [of p5 2 4 5 "[]"] plain'
      by simp
    then show ?thesis
      by (simp add: pages_between_block plain' tail_def m v sec)
  qed
  finally have content: "anchor_pass sec nextSection lines False (Num 1) []
                         = unlines (stop_at nextSection (from_title @ p3 @ p4))"
    using no_next by (simp add: ft unlines_def stop_at_Cons)
  from tl nonblank have "\<exists>c \<in> set tl. \<not> is_ws c"
    by (rule anchor_line_nonblank)
  then have "\<exists>c \<in> set (unlines (stop_at nextSection (from_title @ p3 @ p4))). \<not> is_ws c"
    using no_next by (auto simp: ft unlines_def stop_at_Cons)
  then have "trim (unlines (stop_at nextSection (from_title @ p3 @ p4))) \<noteq> []"
    by (rule trim_nonblank)
  with content split have "extractSectionContent (join_nl lines) sec nextSection
                           = trim (unlines (stop_at nextSection (from_title @ p3 @ p4)))"
    by (simp add: extractSectionContent_def)
  then show ?thesis
    unfolding lines_def tail_def sec_def from_title_def m_defs .
qed

theorem anchor_extraction_brackets_section_witness:
  "(\<exists>l \<in> set [''before'', ''The X files'', ''more'']. str_includes l ''X'')
   \<and> (\<exists>c \<in> set ''X''. \<not> is_ws c)
   \<and> extractSectionContent five_pages section_X (Some section_fourth)
       = ''The X files\<newline>more\<newline>third''"
proof -
  have a: "\<forall>l \<in> set ([''intro''] @ [''before'', ''The X files'', ''more''] @ [''third'']
              @ [''fourth''] @ [''fifth'']). page_match l = None \<and> nl \<notin> set l"
    by code_simp
  have b: "\<exists>l \<in> set [''before'', ''The X files'', ''more'']. str_includes l ''X''"
    by code_simp
  have c: "\<exists>c \<in> set ''X''. \<not> is_ws c"
    by code_simp
  have "\<not> anchor_match section_fourth
            (hd (dropWhile (\<lambda>l. \<not> str_includes (toLowerCase l) (toLowerCase ''X''))
                   [''before'', ''The X files'', ''more'']))"
    by code_simp
  then have d: "\<forall>ns. Some section_fourth = Some ns \<longrightarrow>
             \<not> anchor_match ns
                 (hd (dropWhile (\<lambda>l. \<not> str_includes (toLowerCase l) (toLowerCase ''X''))
                        [''before'', ''The X files'', ''more'']))"
    by simp
  have e: "trim (unlines (stop_at (Some section_fourth)
              (dropWhile (\<lambda>l. \<not> str_includes (toLowerCase l) (toLowerCase ''X''))
                 [''before'', ''The X files'', ''more''] @ [''third''] @ [''fourth''])))
           = ''The X files\<newline>more\<newline>third''"
    by code_simp
  from anchor_extraction_brackets_section [OF a b c d, of None] e b c show ?thesis
    by (simp add: five_pages_def section_X_def)
qed
section \<open>Properties of the retry controller\<close>

lemma before_retry_first [simp]:
  "before_retry JSON_parse baseDelay db docId stepName 0 lastErrorText w = (w, [])"
  by (simp add: before_retry_def)

lemma requests_db_update [simp]: "requests (db_update i f p w) = requests w"
  by (simp add: db_update_def split: option.splits)

lemma requests_updateDocumentStatus [simp]:
  "requests (updateDocumentStatus i s msg p w) = requests w"
  by (simp add: updateDocumentStatus_def)

lemma requests_delay [simp]: "requests (delay ms w) = requests w"
  by (simp add: delay_def)


lemma statusLog_db_update [simp]: "statusLog (db_update i f p w) = statusLog w"
  by (simp add: db_update_def split: option.splits)

lemma statusLog_updateDocumentStatus [simp]:
  "statusLog (updateDocumentStatus i s msg p w) = statusLog w @ [(i, s, msg)]"
  by (simp add: updateDocumentStatus_def)

lemma statusLog_delay [simp]: "statusLog (delay ms w) = statusLog w"
  by (simp add: delay_def)



text \<open>
  C4. Let \<open>fn\<close> fail with an error \<open>e\<close> (a value, not \<open>null\<close> or
  \<open>undefined\<close>) that is not classified as a rate limit. Then \<open>retryWithBackoff\<close>
  throws \<open>e\<close> out of the first attempt: the world is the one that the single call of
  \<open>fn\<close> left, and no status update and no wait has taken place.
\<close>

theorem retry_other_failure_throws_at_once:
  assumes "fn w = (Inl e, w')" and "e \<noteq> Nullish" and "\<not> isRateLimit e"
  shows "retryWithBackoff JSON_parse fn maxRetries baseDelay db docId stepName w
         = (Inl e, w', [])"
proof -
  from assms(2) obtain is_Error msg etext rtext where e: "e = Exn is_Error msg etext rtext"
    by (cases e) auto
  with assms(3) have other: "isRateLimit (Exn is_Error msg etext rtext) = False"
    by simp
  from assms(1) e show ?thesis
    by (simp add: retryWithBackoff_def retry_loop.simps [of _ _ _ _ _ _ _ 0] other
        del: isRateLimit.simps)
qed

theorem retry_other_failure_throws_at_once_witness:
  "\<not> isRateLimit not_found
   \<and> retryWithBackoff quota_parse failing_call 3 1000 True (Some 1)
        (Some ''generating_summaries'') store
     = (Inl not_found, store\<lparr>requests := 1\<rparr>, [])"
proof -
  have a: "failing_call store = (Inl not_found, store\<lparr>requests := 1\<rparr>)"
    by (simp add: failing_call_def store_def)
  have b: "not_found \<noteq> Nullish"
    by (simp add: not_found_def)
  have c: "\<not> isRateLimit not_found"
    by (simp add: not_found_def)
  from retry_other_failure_throws_at_once
         [of failing_call store not_found "store\<lparr>requests := 1\<rparr>", OF a b c] c
  show ?thesis
    by blast
qed



section \<open>Properties of the continuation stage\<close>

lemma sections_db_update [simp]: "sections (db_update i f p w) = sections w"
  by (simp add: db_update_def split: option.splits)

lemma sections_updateDocumentStatus [simp]:
  "sections (updateDocumentStatus i s msg p w) = sections w"
  by (simp add: updateDocumentStatus_def)

lemma sections_delay [simp]: "sections (delay ms w) = sections w"
  by (simp add: delay_def)

text \<open>
  What the controller keeps. \<open>f\<close> is any reading of the world that the function
  called, a status update without progress and a wait leave as it is: the section rows,
  the history of progress, the keys of the document table.
\<close>

lemma before_retry_preserves:
  assumes "\<And>u i s msg. f (updateDocumentStatus i s msg None u) = f u"
    and "\<And>u ms. f (delay ms u) = f u"
  shows "f (fst (before_retry JSON_parse baseDelay db docId stepName attempt lastErrorText w)) = f w"
  using assms by (simp add: before_retry_def Let_def split: option.splits)

lemma retry_loop_preserves:
  assumes fn: "\<And>u. f (snd (fn u)) = f u"
    and hook: "\<And>u i s msg. f (updateDocumentStatus i s msg None u) = f u"
    and wait: "\<And>u ms. f (delay ms u) = f u"
  shows "f (fst (snd (retry_loop JSON_parse fn maxRetries baseDelay db docId stepName a
            lastError lastErrorText w))) = f w"
proof (induction "Suc maxRetries - a" arbitrary: a lastError lastErrorText w)
  case 0
  then have "\<not> a \<le> maxRetries"
    by simp
  then show ?case
    by (subst retry_loop.simps) simp
next
  case (Suc n)
  then have a: "a \<le> maxRetries"
    by simp
  obtain w1 ev1 where br:
    "before_retry JSON_parse baseDelay db docId stepName a lastErrorText w = (w1, ev1)"
    by (cases "before_retry JSON_parse baseDelay db docId stepName a lastErrorText w")
  have s1: "f w1 = f w"
    using before_retry_preserves [of f JSON_parse baseDelay db docId stepName a lastErrorText w,
        OF hook wait] br
    by simp
  obtain r w2 where call: "fn w1 = (r, w2)"
    by (cases "fn w1")
  have s2: "f w2 = f w"
    using fn [of w1] call s1 by simp
  show ?case
  proof (cases r)
    case (Inr v)
    with a br call s2 show ?thesis
      by (subst retry_loop.simps) simp
  next
    case (Inl e)
    show ?thesis
    proof (cases e)
      case Nullish
      with Inl a br call s2 show ?thesis
        by (subst retry_loop.simps) simp
    next
      case (Exn is_Error msg etext rtext)
      define text' where
        "text' = (if etext \<noteq> [] then etext else if rtext \<noteq> [] then rtext else [])"
      obtain r' w3 ev' where rec:
        "retry_loop JSON_parse fn maxRetries baseDelay db docId stepName (Suc a) e text' w2
         = (r', w3, ev')"
        by (cases "retry_loop JSON_parse fn maxRetries baseDelay db docId stepName (Suc a) e
                     text' w2") auto
      from Suc.hyps(2) have n: "n = Suc maxRetries - Suc a"
        by simp
      from Suc.hyps(1) [OF n, of e text' w2] rec s2 have s3: "f w3 = f w"
        by simp
      have unfolded:
        "retry_loop JSON_parse fn maxRetries baseDelay db docId stepName a lastError
            lastErrorText w
         = (if a = maxRetries then (Inl e, w2, ev1)
            else if isRateLimit e then (r', w3, ev1 @ ev')
            else (Inl e, w2, ev1))"
        using a br call Inl Exn rec [unfolded Exn text'_def]
        by (subst retry_loop.simps) (simp del: isRateLimit.simps)
      show ?thesis
        unfolding unfolded using s2 s3 by simp
    qed
  qed
qed

lemma createSectionSummary_preserves:
  assumes call: "createSectionSummary JSON_parse t c k m i w = (r, w')"
    and fn: "\<And>u. f (snd (summary_request u)) = f u"
    and hook: "\<And>u i s msg. f (updateDocumentStatus i s msg None u) = f u"
    and wait: "\<And>u ms. f (delay ms u) = f u"
  shows "f w' = f w"
proof -
  obtain r0 w0 ev0 where run:
    "retry_loop JSON_parse summary_request 3 1000 True (Some i) (Some ''generating_summaries'')
       0 Nullish [] w = (r0, w0, ev0)"
    by (cases "retry_loop JSON_parse summary_request 3 1000 True (Some i)
                 (Some ''generating_summaries'') 0 Nullish [] w") auto
  from retry_loop_preserves [of f summary_request JSON_parse 3 1000 True "Some i"
      "Some ''generating_summaries''" 0 Nullish "[]" w, OF fn hook wait] run
  have "f w0 = f w"
    by simp
  with call run show ?thesis
    by (simp add: createSectionSummary_def retryWithBackoff_def)
qed

lemma summary_request_untouched:
  "sections (snd (summary_request w)) = sections w"
  "progressLog (snd (summary_request w)) = progressLog w"
  "documents (snd (summary_request w)) = documents w"
  by (simp_all add: summary_request_def Let_def split: fetch_outcome.splits option.splits)

lemma sections_createSectionSummary:
  "createSectionSummary JSON_parse t c k m i w = (r, w') \<Longrightarrow> sections w' = sections w"
  by (rule createSectionSummary_preserves [where f = sections])
    (simp_all add: summary_request_untouched)

text \<open>
  One turn of the loop adds one row, with the page range of its section, or none when
  the summary fails.
\<close>

lemma summarize_section_rows:
  assumes "summarize_section JSON_parse req key n i sec nextSection w = (r, w')"
  shows "(\<exists>e. r = Inl e \<and> sections w' = sections w)
         \<or> (r = Inr () \<and> (\<exists>row. sections w' = sections w @ [row]
                \<and> startPage row = start_page sec \<and> endPage row = end_page sec))"
  using assms
  by (auto simp: summarize_section_def Let_def split: prod.splits sum.splits
      dest!: sections_createSectionSummary)

text \<open>
  The rows that the loop inserts follow the rows that were there, and each takes its
  page range from one of the sections of the loop.
\<close>

lemma summarize_sections_rows:
  "\<exists>rows. sections (snd (summarize_sections JSON_parse req key n i secs valid w))
             = sections w @ rows
         \<and> (\<forall>r \<in> set rows. \<exists>s \<in> set secs. startPage r = start_page s \<and> endPage r = end_page s)"
proof (induction secs arbitrary: i valid w)
  case Nil
  then show ?case by simp
next
  case (Cons sec rest)
  obtain r w' where turn:
    "summarize_section JSON_parse req key n i sec (case rest of [] \<Rightarrow> None | s # _ \<Rightarrow> Some s) w
     = (r, w')"
    by (cases "summarize_section JSON_parse req key n i sec
                 (case rest of [] \<Rightarrow> None | s # _ \<Rightarrow> Some s) w")
  from summarize_section_rows [OF turn] show ?case
  proof
    assume "\<exists>e. r = Inl e \<and> sections w' = sections w"
    with turn have "sections (snd (summarize_sections JSON_parse req key n i (sec # rest) valid w))
                    = sections w @ []"
      by auto
    then show ?thesis
      by (intro exI [of _ "[]"]) simp
  next
    assume "r = Inr () \<and> (\<exists>row. sections w' = sections w @ [row]
              \<and> startPage row = start_page sec \<and> endPage row = end_page sec)"
    then obtain row where r: "r = Inr ()" and row: "sections w' = sections w @ [row]"
      "startPage row = start_page sec" "endPage row = end_page sec"
      by blast
    from Cons.IH [of "i + 1" "valid @ [sec]" w']
    obtain rows where rows:
      "sections (snd (summarize_sections JSON_parse req key n (i + 1) rest (valid @ [sec]) w'))
       = sections w' @ rows"
      "\<forall>r \<in> set rows. \<exists>s \<in> set rest. startPage r = start_page s \<and> endPage r = end_page s"
      by blast
    have "sections (snd (summarize_sections JSON_parse req key n i (sec # rest) valid w))
          = sections w @ (row # rows)"
      using turn r rows(1) row(1) by simp
    moreover have "\<forall>r \<in> set (row # rows). \<exists>s \<in> set (sec # rest).
                     startPage r = start_page s \<and> endPage r = end_page s"
      using rows(2) row(2,3) by auto
    ultimately show ?thesis
      by blast
  qed
qed

lemma sections_record_failure [simp]: "sections (snd (record_failure i e w)) = sections w"
  by (simp add: record_failure_def Let_def)

lemma continue_processing_rows:
  "\<exists>rows. sections (snd (continue_processing JSON_parse req key doc w)) = sections w @ rows
         \<and> (\<forall>r \<in> set rows. \<exists>s \<in> set (outline_of req doc).
               startPage r = start_page s \<and> endPage r = end_page s)"
proof -
  define w2 where
    "w2 = updateDocumentStatus (documentId req) ''generating_summaries''
            ''Generating detailed summaries for each section... Processing sections one by one with AI.''
            (Some 75)
            (db_update (documentId req)
               (\<lambda>d. d\<lparr>status := processing, outlineApprovedAt := Some (clock w)\<rparr>) None w)"
  have s2: "sections w2 = sections w"
    by (simp add: w2_def)
  obtain r w3 where loop:
    "summarize_sections JSON_parse req key (length (outline_of req doc)) 0 (outline_of req doc) [] w2
     = (r, w3)"
    by (cases "summarize_sections JSON_parse req key (length (outline_of req doc)) 0
                 (outline_of req doc) [] w2")
  from summarize_sections_rows [of JSON_parse req key "length (outline_of req doc)" 0
      "outline_of req doc" "[]" w2] loop s2
  obtain rows where rows: "sections w3 = sections w @ rows"
    "\<forall>r \<in> set rows. \<exists>s \<in> set (outline_of req doc).
        startPage r = start_page s \<and> endPage r = end_page s"
    by auto
  have "sections (snd (continue_processing JSON_parse req key doc w)) = sections w3"
    using loop by (cases r) (simp_all add: continue_processing_def Let_def w2_def)
  with rows show ?thesis
    by auto
qed

text \<open>
  C3. When the document that a request names is in the store with a status other than
  \<open>awaiting_outline_approval\<close>, the route answers with the status 400 and an error,
  and the world, with both tables, is as it was.
\<close>

theorem resume_rejected_unless_awaiting:
  assumes "documents w (documentId req) = Some doc"
    and "status doc \<noteq> awaiting_outline_approval"
  shows "\<exists>msg. action JSON_parse req w = ((400, Error msg), w)"
  using assms by (simp add: action_def split: option.splits)

theorem resume_rejected_unless_awaiting_witness:
  "documents completed_store (documentId resume)
     = Some (awaiting_doc\<lparr>status := completed, progress := 100\<rparr>)
   \<and> status (awaiting_doc\<lparr>status := completed, progress := 100\<rparr>) \<noteq> awaiting_outline_approval
   \<and> fst (action quota_parse resume completed_store)
       = (400, Error ''Document not awaiting approval'')
   \<and> snd (action quota_parse resume completed_store) = completed_store"
proof -
  have a: "documents completed_store (documentId resume)
           = Some (awaiting_doc\<lparr>status := completed, progress := 100\<rparr>)"
    by (simp add: completed_store_def resume_def)
  have b: "status (awaiting_doc\<lparr>status := completed, progress := 100\<rparr>) \<noteq> awaiting_outline_approval"
    by simp
  have c: "fst (action quota_parse resume completed_store)
           = (400, Error ''Document not awaiting approval'')"
    by code_simp
  from resume_rejected_unless_awaiting [OF a b, of quota_parse] a b c show ?thesis
    by auto
qed

text \<open>
  C9 (as stated, refuted). The stage accepts the edited outline whose section runs from
  page 5 to page 2, summarizes it and persists the row with \<open>startPage\<close> 5 and
  \<open>endPage\<close> 2.
\<close>

theorem persisted_row_counterexample:
  "fst (action quota_parse resume_edited store) = (200, Success 1)
   \<and> sections (snd (action quota_parse resume_edited store))
       = [\<lparr>row_documentId = 1, row_title = ''X'', summary = ''* a point'', startPage = 5,
           endPage = 2, sectionNumber = 1, pdfPath = None\<rparr>]
   \<and> \<not> (5::int) \<le> 2"
  by code_simp

text \<open>
  C9 (amended). The stage copies the page range of each section of the outline into the
  row it persists, without a check. So for every outline, approved or edited, all of
  whose sections have \<open>start_page \<le> end_page\<close>, every row persisted by the stage has
  \<open>startPage \<le> endPage\<close>.
\<close>

theorem persisted_rows_keep_page_order:
  assumes "documents w (documentId req) = Some doc"
    and "\<forall>s \<in> set (outline_of req doc). start_page s \<le> end_page s"
  shows "\<exists>rows. sections (snd (action JSON_parse req w)) = sections w @ rows
               \<and> (\<forall>r \<in> set rows. startPage r \<le> endPage r)"
proof (cases "\<exists>key. apiKey req = Some key \<and> key \<noteq> [] \<and> documentId req \<noteq> 0
                \<and> selectedModel req \<noteq> [] \<and> fileData req \<noteq> [] \<and> documentText req \<noteq> []
                \<and> status doc = awaiting_outline_approval")
  case False
  with assms(1) have "snd (action JSON_parse req w) = w"
    by (auto simp: action_def split: option.splits)
  then show ?thesis
    by (intro exI [of _ "[]"]) simp
next
  case True
  then obtain key where "action JSON_parse req w = continue_processing JSON_parse req key doc w"
    using assms(1) by (auto simp: action_def)
  with continue_processing_rows [of JSON_parse req key doc w] assms(2) show ?thesis
    by fastforce
qed

theorem persisted_rows_keep_page_order_witness:
  "documents store (documentId resume) = Some awaiting_doc
   \<and> sections (snd (action quota_parse resume store))
       = sections store
         @ [\<lparr>row_documentId = 1, row_title = ''X'', summary = ''* a point'', startPage = 2,
             endPage = 4, sectionNumber = 1, pdfPath = None\<rparr>]"
proof -
  have a: "documents store (documentId resume) = Some awaiting_doc"
    by (simp add: store_def resume_def)
  have b: "\<forall>s \<in> set (outline_of resume awaiting_doc). start_page s \<le> end_page s"
    by (simp add: outline_of_def resume_def awaiting_doc_def section_X_def)
  have c: "sections (snd (action quota_parse resume store))
           = sections store
             @ [\<lparr>row_documentId = 1, row_title = ''X'', summary = ''* a point'', startPage = 2,
                 endPage = 4, sectionNumber = 1, pdfPath = None\<rparr>]"
    by code_simp
  from persisted_rows_keep_page_order [OF a b, of quota_parse] a c show ?thesis
    by simp
qed

section \<open>The history of progress\<close>

text \<open>
  A turn of the loop that returns ends with the write of
  \<open>round(75 + ((i + 1) / n) * 25)\<close>; so a loop that returns, over at least one
  section, ends with the write of 100, and the stage then writes 95, 98 and 100.
\<close>

lemma Math_round_full: "n \<noteq> 0 \<Longrightarrow> Math_round (75 + (of_nat n / of_nat n) * 25) = 100"
proof -
  assume "n \<noteq> 0"
  then have "Math_round (75 + (of_nat n / of_nat n) * 25) = \<lfloor>(201 :: rat) / 2\<rfloor>"
    by (simp add: Math_round_def)
  also have "\<dots> = 100"
    by (rule floor_unique) simp_all
  finally show ?thesis .
qed

lemma present_db_update [simp]:
  "documents (db_update i f p w) d = None \<longleftrightarrow> documents w d = None"
  by (simp add: db_update_def split: option.splits)

lemma present_updateDocumentStatus [simp]:
  "documents (updateDocumentStatus i s msg p w) d = None \<longleftrightarrow> documents w d = None"
  by (simp add: updateDocumentStatus_def)

lemma log_db_update:
  "documents w i \<noteq> None \<Longrightarrow> progressLog (db_update i f (Some v) w) = progressLog w @ [(i, v)]"
  "progressLog (db_update i f None w) = progressLog w"
  by (auto simp: db_update_def split: option.splits)

lemma log_updateDocumentStatus:
  "documents w i \<noteq> None \<Longrightarrow>
   progressLog (updateDocumentStatus i s msg (Some v) w) = progressLog w @ [(i, v)]"
  "progressLog (updateDocumentStatus i s msg None w) = progressLog w"
  by (simp_all add: updateDocumentStatus_def log_db_update)

lemma createSectionSummary_keeps_log:
  assumes "createSectionSummary JSON_parse t c k m i w = (r, w')"
  shows "progressLog w' = progressLog w"
    and "documents w' d = None \<longleftrightarrow> documents w d = None"
proof -
  show "progressLog w' = progressLog w"
    by (rule createSectionSummary_preserves [where f = progressLog, OF assms])
      (simp_all add: summary_request_untouched log_updateDocumentStatus delay_def)
  show "documents w' d = None \<longleftrightarrow> documents w d = None"
    by (rule createSectionSummary_preserves [where f = "\<lambda>u. documents u d = None", OF assms])
      (simp_all add: summary_request_untouched delay_def)
qed

lemma returned_case:
  assumes "(case p of (Inl e, u) \<Rightarrow> (Inl e, u) | (Inr s, u) \<Rightarrow> (Inr (), g s u)) = (Inr (), w')"
  obtains s u where "p = (Inr s, u)" and "w' = g s u"
  using assms by (auto split: prod.splits sum.splits)

lemma summarize_section_progress:
  assumes run: "summarize_section JSON_parse req key n i sec nextSection w = (Inr (), w')"
    and present: "documents w (documentId req) \<noteq> None"
  shows "progressLog w'
         = progressLog w
           @ [(documentId req, Math_round (75 + (of_nat i / of_nat n) * 25)),
              (documentId req, Math_round (75 + (of_nat i / of_nat n) * 25)),
              (documentId req, Math_round (75 + (of_nat (i + 1) / of_nat n) * 20)),
              (documentId req, Math_round (75 + (of_nat (i + 1) / of_nat n) * 25))]"
    and "documents w' (documentId req) \<noteq> None"
proof -
  from run [unfolded summarize_section_def Let_def]
  obtain summary_text w4 where
    call: "createSectionSummary JSON_parse (title sec)
       (extractSectionContent (documentText req) sec nextSection) key (selectedModel req)
       (documentId req)
       (updateDocumentStatus (documentId req) ''generating_summaries''
          (''Analyzing section '' @ decimal (i + 1) @ ''/'' @ decimal n @ '': ''
           @ title sec @ '' with AI...'')
          (Some (Math_round (75 + (of_nat i / of_nat n) * 25)))
          (if i > 0
           then delay 2000
                  (updateDocumentStatus (documentId req) ''generating_summaries''
                     (''Processing section '' @ decimal (i + 1) @ ''/'' @ decimal n @ '': ''
                      @ title sec)
                     (Some (Math_round (75 + (of_nat i / of_nat n) * 25))) w)
           else updateDocumentStatus (documentId req) ''generating_summaries''
                  (''Processing section '' @ decimal (i + 1) @ ''/'' @ decimal n @ '': ''
                   @ title sec)
                  (Some (Math_round (75 + (of_nat i / of_nat n) * 25))) w))
       = (Inr summary_text, w4)"
    and w': "w' = updateDocumentStatus (documentId req) ''generating_summaries''
            (''Completed section '' @ decimal (i + 1) @ ''/'' @ decimal n @ '': ''
             @ title sec @ '' (summary generated)'')
            (Some (Math_round (75 + (of_nat (i + 1) / of_nat n) * 25)))
            ((updateDocumentStatus (documentId req) ''generating_pdfs''
                (''Generating PDF for section: '' @ title sec @ '' (''
                 @ decimal (i + 1) @ ''/'' @ decimal n @ '')'')
                (Some (Math_round (75 + (of_nat (i + 1) / of_nat n) * 20))) w4)
             \<lparr>sections :=
                 sections (updateDocumentStatus (documentId req) ''generating_pdfs''
                   (''Generating PDF for section: '' @ title sec @ '' (''
                    @ decimal (i + 1) @ ''/'' @ decimal n @ '')'')
                   (Some (Math_round (75 + (of_nat (i + 1) / of_nat n) * 20))) w4) @
                 [\<lparr>row_documentId = documentId req, row_title = title sec,
                   summary = summary_text, startPage = start_page sec,
                   endPage = end_page sec, sectionNumber = i + 1, pdfPath = None\<rparr>]\<rparr>)"
    by (rule returned_case)
  from createSectionSummary_keeps_log(1) [OF call]
    createSectionSummary_keeps_log(2) [OF call, of "documentId req"] present
  have l4: "progressLog w4
            = progressLog w
              @ [(documentId req, Math_round (75 + (of_nat i / of_nat n) * 25)),
                 (documentId req, Math_round (75 + (of_nat i / of_nat n) * 25))]"
    and p4: "documents w4 (documentId req) \<noteq> None"
    by (cases "i > 0"; simp add: log_updateDocumentStatus delay_def)+
  from p4 show "documents w' (documentId req) \<noteq> None"
    by (simp add: w')
  from p4 l4 show "progressLog w'
         = progressLog w
           @ [(documentId req, Math_round (75 + (of_nat i / of_nat n) * 25)),
              (documentId req, Math_round (75 + (of_nat i / of_nat n) * 25)),
              (documentId req, Math_round (75 + (of_nat (i + 1) / of_nat n) * 20)),
              (documentId req, Math_round (75 + (of_nat (i + 1) / of_nat n) * 25))]"
    by (simp add: w' log_updateDocumentStatus)
qed

lemma summarize_sections_progress:
  assumes "summarize_sections JSON_parse req key n i secs valid w = (Inr vs, w')"
    and "secs \<noteq> []" and "i + length secs = n"
    and "documents w (documentId req) \<noteq> None"
  shows "(\<exists>pre. progressLog w' = progressLog w @ pre @ [(documentId req, 100)])
         \<and> documents w' (documentId req) \<noteq> None"
  using assms
proof (induction secs arbitrary: i valid w)
  case Nil
  then show ?case by simp
next
  case (Cons sec rest)
  obtain r w1 where turn:
    "summarize_section JSON_parse req key n i sec (case rest of [] \<Rightarrow> None | s # _ \<Rightarrow> Some s) w
     = (r, w1)"
    by (cases "summarize_section JSON_parse req key n i sec
                 (case rest of [] \<Rightarrow> None | s # _ \<Rightarrow> Some s) w")
  with Cons.prems(1) have r: "r = Inr ()"
    by (cases r) auto
  from turn r Cons.prems(1)
  have rest_run: "summarize_sections JSON_parse req key n (i + 1) rest (valid @ [sec]) w1
                  = (Inr vs, w')"
    by simp
  define pre1 where
    "pre1 = [(documentId req, Math_round (75 + (of_nat i / of_nat n) * 25)),
             (documentId req, Math_round (75 + (of_nat i / of_nat n) * 25)),
             (documentId req, Math_round (75 + (of_nat (i + 1) / of_nat n) * 20))]"
  from summarize_section_progress [OF turn [unfolded r] Cons.prems(4)]
  have l1: "progressLog w1
      = progressLog w @ pre1
        @ [(documentId req, Math_round (75 + (of_nat (i + 1) / of_nat n) * 25))]"
    and d1: "documents w1 (documentId req) \<noteq> None"
    by (simp_all add: pre1_def)
  show ?case
  proof (cases "rest = []")
    case True
    with rest_run have "w' = w1"
      by simp
    moreover from True Cons.prems(3) have "i + 1 = n" "n \<noteq> 0"
      by simp_all
    ultimately show ?thesis
      using l1 d1 Math_round_full [of n] by auto
  next
    case False
    from Cons.prems(3) have "i + 1 + length rest = n"
      by simp
    from Cons.IH [OF rest_run False this d1]
    obtain pre2 where "progressLog w' = progressLog w1 @ pre2 @ [(documentId req, 100)]"
      and d': "documents w' (documentId req) \<noteq> None"
      by blast
    with l1 have "progressLog w'
        = progressLog w
          @ (pre1 @ [(documentId req, Math_round (75 + (of_nat (i + 1) / of_nat n) * 25))] @ pre2)
          @ [(documentId req, 100)]"
      by simp
    with d' show ?thesis
      by blast
  qed
qed

lemma continue_processing_progress:
  assumes run: "continue_processing JSON_parse req key doc w = ((200, Success m), w')"
    and "outline_of req doc \<noteq> []"
    and present: "documents w (documentId req) \<noteq> None"
  shows "\<exists>pre. progressLog w'
               = progressLog w @ pre
                 @ [(documentId req, 100), (documentId req, 95), (documentId req, 98),
                    (documentId req, 100)]"
proof -
  define w2 where
    "w2 = updateDocumentStatus (documentId req) ''generating_summaries''
            ''Generating detailed summaries for each section... Processing sections one by one with AI.''
            (Some 75)
            (db_update (documentId req)
               (\<lambda>d. d\<lparr>status := processing, outlineApprovedAt := Some (clock w)\<rparr>) None w)"
  have d2: "documents w2 (documentId req) \<noteq> None"
    using present by (simp add: w2_def)
  have l2: "progressLog w2 = progressLog w @ [(documentId req, 75)]"
    using present by (simp add: w2_def log_updateDocumentStatus log_db_update)
  obtain r w3 where loop:
    "summarize_sections JSON_parse req key (length (outline_of req doc)) 0 (outline_of req doc) [] w2
     = (r, w3)"
    by (cases "summarize_sections JSON_parse req key (length (outline_of req doc)) 0
                 (outline_of req doc) [] w2")
  note run' = run [unfolded continue_processing_def Let_def, folded w2_def, unfolded loop]
  from run' obtain vs where r: "r = Inr vs"
    by (cases r) (auto simp: record_failure_def Let_def)
  from summarize_sections_progress [OF loop [unfolded r] assms(2) _ d2]
  obtain pre where l3: "progressLog w3 = progressLog w2 @ pre @ [(documentId req, 100)]"
    and d3: "documents w3 (documentId req) \<noteq> None"
    by auto
  from run' r d3
  have "progressLog w'
        = progressLog w3 @ [(documentId req, 95), (documentId req, 98), (documentId req, 100)]"
    by (auto simp: log_updateDocumentStatus log_db_update)
  with l3 l2 have "progressLog w'
        = progressLog w @ ((documentId req, 75) # pre)
          @ [(documentId req, 100), (documentId req, 95), (documentId req, 98),
             (documentId req, 100)]"
    by simp
  then show ?thesis
    by blast
qed

text \<open>
  Every run of the stage that succeeds over an outline of at least one section writes
  100 and then 95 to \<open>progress\<close>.
\<close>

lemma progress_falls_after_last_section:
  assumes "fst (action JSON_parse req w) = (200, Success m)"
    and "documents w (documentId req) = Some doc"
    and "outline_of req doc \<noteq> []"
  shows "\<exists>pre. progressLog (snd (action JSON_parse req w))
               = progressLog w @ pre
                 @ [(documentId req, 100), (documentId req, 95), (documentId req, 98),
                    (documentId req, 100)]"
proof -
  from assms(1,2) obtain key where
    run: "action JSON_parse req w = continue_processing JSON_parse req key doc w"
    by (auto simp: action_def split: option.splits if_splits)
  obtain w' where "continue_processing JSON_parse req key doc w = ((200, Success m), w')"
    using assms(1) run by (cases "continue_processing JSON_parse req key doc w") auto
  moreover from assms(2) have "documents w (documentId req) \<noteq> None"
    by simp
  ultimately show ?thesis
    using continue_processing_progress [of JSON_parse req key doc w m w'] assms(3) run
    by simp
qed

text \<open>
  C2 (the code departs from it). A run of the stage on the document with the
  one-section outline succeeds, and the values it writes to \<open>progress\<close> are
  75, 75, 75, 95, 100, 95, 98, 100: the last update of the loop writes
  \<open>round(75 + (1/1) * 25) = 100\<close>, and the two updates after the loop write 95 and 98.
  By the lemma above the same fall from 100 to 95 ends every run that succeeds over at
  least one section.
\<close>

theorem progress_goes_back:
  "fst (action quota_parse resume store) = (200, Success 1)
   \<and> progressLog (snd (action quota_parse resume store))
       = [(1, 75), (1, 75), (1, 75), (1, 95), (1, 100), (1, 95), (1, 98), (1, 100)]
   \<and> \<not> sorted [75, 75, 75, 95, 100, 95, 98, 100 :: int]"
  by code_simp

end
